theory Spec2Isabelle
  imports Main "HOL-Library.Word" "HOL-Library.Multiset"
begin

unbundle bit_operations_syntax

section \<open>Memory model\<close>

text \<open>
  Pointers are 64-bit addresses and \<open>NULL\<close> is address 0. The heap holds, per address, the
  two link fields of a \<^verbatim>\<open>struct list_head\<close>, the \<^verbatim>\<open>value\<close> field of an
  \<^verbatim>\<open>element_t\<close>, the character array stored there by \<^verbatim>\<open>strdup\<close>, and one byte of
  caller memory (for the output buffer of the remove operations). An element is identified
  with the address of its embedded list node, so \<^verbatim>\<open>list_entry\<close> (the fixed-offset
  \<^verbatim>\<open>container_of\<close>) is the identity on addresses. \<open>alloc\<close> is the set of live
  allocations.

  Reading a field is a total function of the heap: a read through a null or dangling
  pointer is not a fault of the model. The results below are stated for heaps that hold a
  ring or a chain, where every pointer the code follows is a node of it. A loop of the
  code is a partial function into \<open>option\<close>: \<open>None\<close> stands for a loop that does not
  return.
\<close>

type_synonym ptr = "64 word"

abbreviation NULL :: ptr where
  "NULL \<equiv> 0"

record heap =
  nxt :: "ptr \<Rightarrow> ptr"
  prv :: "ptr \<Rightarrow> ptr"
  val :: "ptr \<Rightarrow> ptr"
  str :: "ptr \<Rightarrow> string"
  bytes :: "ptr \<Rightarrow> char"
  alloc :: "ptr set"

subsection \<open>C library\<close>

text \<open>
  The allocator belongs to the environment: its answer is an argument of the model
  (\<open>NULL\<close> for failure, otherwise the address it hands out).
\<close>

definition malloc :: "ptr \<Rightarrow> heap \<Rightarrow> ptr \<times> heap" where
  "malloc r h = (if r = NULL then (NULL, h) else (r, h\<lparr>alloc := insert r (alloc h)\<rparr>))"

definition free :: "ptr \<Rightarrow> heap \<Rightarrow> heap" where
  "free p h = (if p = NULL then h else h\<lparr>alloc := alloc h - {p}\<rparr>)"

definition strdup :: "ptr \<Rightarrow> string \<Rightarrow> heap \<Rightarrow> ptr \<times> heap" where
  "strdup r s h =
     (if r = NULL then (NULL, h)
      else (r, h\<lparr>str := (str h)(r := s), alloc := insert r (alloc h)\<rparr>))"

text \<open>A character array is read as a C string: up to its first NUL byte.\<close>

definition cstr :: "string \<Rightarrow> string" where
  "cstr s = takeWhile (\<lambda>c. c \<noteq> CHR 0x00) s"

fun bytecmp :: "string \<Rightarrow> string \<Rightarrow> int" where
  "bytecmp [] [] = 0"
| "bytecmp [] (y # ys) = - int (of_char y)"
| "bytecmp (x # xs) [] = int (of_char x)"
| "bytecmp (x # xs) (y # ys) =
     (if x = y then bytecmp xs ys else int (of_char x) - int (of_char y))"

definition strcmp :: "string \<Rightarrow> string \<Rightarrow> int" where
  "strcmp s1 s2 = bytecmp (cstr s1) (cstr s2)"

text \<open>
  \<^verbatim>\<open>strncpy(dst, src, n)\<close> writes exactly \<open>n\<close> bytes at \<open>dst\<close>: the bytes of the string,
  then NUL padding.
\<close>

definition strncpy :: "ptr \<Rightarrow> string \<Rightarrow> 64 word \<Rightarrow> heap \<Rightarrow> heap" where
  "strncpy dst src n h =
     h\<lparr>bytes := (\<lambda>a. if a - dst < n
                      then (if unat (a - dst) < length (cstr src)
                            then cstr src ! unat (a - dst) else CHR 0x00)
                      else bytes h a)\<rparr>"

subsection \<open>List primitives\<close>

text \<open>
  Modelled from the spec: the header \<^verbatim>\<open>list.h\<close> (\<^verbatim>\<open>INIT_LIST_HEAD\<close>, \<^verbatim>\<open>list_add\<close>,
  \<^verbatim>\<open>list_add_tail\<close>, \<^verbatim>\<open>list_del\<close>, \<^verbatim>\<open>list_move\<close>, \<^verbatim>\<open>list_empty\<close>,
  \<^verbatim>\<open>list_is_singular\<close> and the iteration macros) is not part of the sources. The
  definitions follow section 4.1 of the specification: \<open>init\<close> makes a self-referential
  ring, \<open>insert_after\<close> and \<open>insert_before\<close> update four pointers, \<open>remove\<close> relinks the
  neighbours to each other and leaves the node's own pointers stale, \<open>move_to_front\<close> is
  remove followed by insert-after, \<open>is_empty\<close> is \<open>anchor.next == anchor\<close>, and
  \<open>is_singular\<close> holds for a ring with exactly one node besides the sentinel.
\<close>

definition INIT_LIST_HEAD :: "ptr \<Rightarrow> heap \<Rightarrow> heap" where
  "INIT_LIST_HEAD head h = h\<lparr>nxt := (nxt h)(head := head), prv := (prv h)(head := head)\<rparr>"

definition list_add :: "ptr \<Rightarrow> ptr \<Rightarrow> heap \<Rightarrow> heap" where
  "list_add node head h =
     (let n = nxt h head;
          h1 = h\<lparr>prv := (prv h)(n := node)\<rparr>;
          h2 = h1\<lparr>nxt := (nxt h1)(node := n)\<rparr>;
          h3 = h2\<lparr>prv := (prv h2)(node := head)\<rparr>
      in h3\<lparr>nxt := (nxt h3)(head := node)\<rparr>)"

definition list_add_tail :: "ptr \<Rightarrow> ptr \<Rightarrow> heap \<Rightarrow> heap" where
  "list_add_tail node head h =
     (let p = prv h head;
          h1 = h\<lparr>nxt := (nxt h)(p := node)\<rparr>;
          h2 = h1\<lparr>nxt := (nxt h1)(node := head)\<rparr>;
          h3 = h2\<lparr>prv := (prv h2)(node := p)\<rparr>
      in h3\<lparr>prv := (prv h3)(head := node)\<rparr>)"

definition list_del :: "ptr \<Rightarrow> heap \<Rightarrow> heap" where
  "list_del node h =
     (let n = nxt h node;
          p = prv h node;
          h1 = h\<lparr>prv := (prv h)(n := p)\<rparr>
      in h1\<lparr>nxt := (nxt h1)(p := n)\<rparr>)"

definition list_move :: "ptr \<Rightarrow> ptr \<Rightarrow> heap \<Rightarrow> heap" where
  "list_move node head h = list_add node head (list_del node h)"

definition list_empty :: "heap \<Rightarrow> ptr \<Rightarrow> bool" where
  "list_empty h head \<longleftrightarrow> nxt h head = head"

definition list_is_singular :: "heap \<Rightarrow> ptr \<Rightarrow> bool" where
  "list_is_singular h head \<longleftrightarrow> \<not> list_empty h head \<and> prv h head = nxt h head"

section \<open>Queue operations\<close>

definition q_new :: "heap \<Rightarrow> ptr \<Rightarrow> ptr \<times> heap" where
  "q_new h r =
     (let (head, h1) = malloc r h
      in if head = NULL then (NULL, h1) else (head, INIT_LIST_HEAD head h1))"

definition q_release_element :: "ptr \<Rightarrow> heap \<Rightarrow> heap" where
  "q_release_element e h = free e (free (val h e) h)"

text \<open>
  \<open>q_insert_head h head s re rs\<close>: \<open>re\<close> is the allocator's answer to
  \<^verbatim>\<open>malloc(sizeof(element_t))\<close> and \<open>rs\<close> its answer to \<^verbatim>\<open>strdup(s)\<close>.
\<close>

definition q_insert_head :: "heap \<Rightarrow> ptr \<Rightarrow> string \<Rightarrow> ptr \<Rightarrow> ptr \<Rightarrow> bool \<times> heap" where
  "q_insert_head h head s re rs =
     (if head = NULL then (False, h)
      else let (e, h1) = malloc re h
           in if e = NULL then (False, h1)
              else let (v, h2) = strdup rs s h1;
                       h3 = h2\<lparr>val := (val h2)(e := v)\<rparr>
                   in if val h3 e = NULL then (False, free e h3)
                      else (True, list_add e head h3))"

definition q_insert_tail :: "heap \<Rightarrow> ptr \<Rightarrow> string \<Rightarrow> ptr \<Rightarrow> ptr \<Rightarrow> bool \<times> heap" where
  "q_insert_tail h head s re rs =
     (if head = NULL then (False, h)
      else let (e, h1) = malloc re h
           in if e = NULL then (False, h1)
              else let (v, h2) = strdup rs s h1;
                       h3 = h2\<lparr>val := (val h2)(e := v)\<rparr>
                   in if val h3 e = NULL then (False, free e h3)
                      else (True, list_add_tail e head h3))"

text \<open>
  The remove operations return the element (\<open>NULL\<close> for none). \<open>bufsize\<close> is a
  \<^verbatim>\<open>size_t\<close>, so \<open>bufsize - 1\<close> wraps around at 0.
\<close>

definition q_remove_head :: "heap \<Rightarrow> ptr \<Rightarrow> ptr \<Rightarrow> 64 word \<Rightarrow> ptr \<times> heap" where
  "q_remove_head h head sp bufsize =
     (if head = NULL \<or> list_empty h head then (NULL, h)
      else let e = nxt h head;
               h1 = list_del (nxt h head) h
           in if sp \<noteq> NULL
              then let h2 = strncpy sp (str h1 (val h1 e)) bufsize h1
                   in (e, h2\<lparr>bytes := (bytes h2)(sp + (bufsize - 1) := CHR 0x00)\<rparr>)
              else (e, h1))"

definition q_remove_tail :: "heap \<Rightarrow> ptr \<Rightarrow> ptr \<Rightarrow> 64 word \<Rightarrow> ptr \<times> heap" where
  "q_remove_tail h head sp bufsize =
     (if head = NULL \<or> list_empty h head then (NULL, h)
      else let e = prv h head;
               h1 = list_del (prv h head) h
           in if sp \<noteq> NULL
              then let h2 = strncpy sp (str h1 (val h1 e)) bufsize h1
                   in (e, h2\<lparr>bytes := (bytes h2)(sp + (bufsize - 1) := CHR 0x00)\<rparr>)
              else (e, h1))"

text \<open>
  \<open>q_delete_mid\<close>: the cursor \<^verbatim>\<open>idir\<close> points at the \<^verbatim>\<open>next\<close> field of a node; the model
  keeps that node, so \<^verbatim>\<open>*idir\<close> is \<open>nxt h idir\<close> and \<^verbatim>\<open>&(*idir)->next\<close> is
  \<open>nxt h idir\<close> again. The result \<^verbatim>\<open>NULL\<close> of the first exit converts to \<open>False\<close>.
\<close>

partial_function (option) q_delete_mid_loop :: "heap \<Rightarrow> ptr \<Rightarrow> ptr \<Rightarrow> ptr \<Rightarrow> ptr option" where
  "q_delete_mid_loop h head fast idir =
     (if fast \<noteq> head \<and> nxt h fast \<noteq> head
      then q_delete_mid_loop h head (nxt h (nxt h fast)) (nxt h idir)
      else Some idir)"

declare q_delete_mid_loop.simps [code]

definition q_delete_mid :: "heap \<Rightarrow> ptr \<Rightarrow> (bool \<times> heap) option" where
  "q_delete_mid h head =
     (if head = NULL \<or> list_empty h head then Some (False, h)
      else case q_delete_mid_loop h head (nxt h head) head of
             None \<Rightarrow> None
           | Some idir \<Rightarrow>
               let e = nxt h idir;
                   h1 = list_del (nxt h idir) h
               in Some (True, q_release_element e h1))"

text \<open>
  \<open>q_delete_dup\<close>: the loop is \<^verbatim>\<open>list_for_each_entry_safe (e, safe, head, list)\<close>, which
  fetches \<open>safe\<close> before the body runs and again after each step.
\<close>

partial_function (option) q_delete_dup_loop :: "heap \<Rightarrow> ptr \<Rightarrow> ptr \<Rightarrow> ptr \<Rightarrow> heap option" where
  "q_delete_dup_loop h head e safe =
     (if e = head then Some h
      else if nxt h e = head then Some h
      else let h1 = (if strcmp (str h (val h e)) (str h (val h safe)) = 0
                     then q_release_element e (list_del e h) else h)
           in q_delete_dup_loop h1 head safe (nxt h1 safe))"

declare q_delete_dup_loop.simps [code]

definition q_delete_dup :: "heap \<Rightarrow> ptr \<Rightarrow> (bool \<times> heap) option" where
  "q_delete_dup h head =
     (if head = NULL then Some (False, h)
      else map_option (Pair True)
             (q_delete_dup_loop h head (nxt h head) (nxt h (nxt h head))))"

partial_function (option) q_swap_loop :: "heap \<Rightarrow> ptr \<Rightarrow> ptr \<Rightarrow> heap option" where
  "q_swap_loop h head l =
     (if l \<noteq> head \<and> nxt h l \<noteq> head
      then let h1 = list_move l (nxt h l) h in q_swap_loop h1 head (nxt h1 l)
      else Some h)"

declare q_swap_loop.simps [code]

definition q_swap :: "heap \<Rightarrow> ptr \<Rightarrow> heap option" where
  "q_swap h head = (if head = NULL then Some h else q_swap_loop h head (nxt h head))"

text \<open>\<open>q_reverse\<close>: the loop is \<^verbatim>\<open>list_for_each_safe (l, safe, head)\<close>.\<close>

partial_function (option) q_reverse_loop :: "heap \<Rightarrow> ptr \<Rightarrow> ptr \<Rightarrow> ptr \<Rightarrow> heap option" where
  "q_reverse_loop h head l safe =
     (if l = head then Some h
      else let h1 = list_move l head h in q_reverse_loop h1 head safe (nxt h1 safe))"

declare q_reverse_loop.simps [code]

definition q_reverse :: "heap \<Rightarrow> ptr \<Rightarrow> heap option" where
  "q_reverse h head =
     (if head = NULL \<or> list_empty h head then Some h
      else q_reverse_loop h head (nxt h head) (nxt h (nxt h head)))"

text \<open>
  \<open>mergeTwoLists\<close>: \<^verbatim>\<open>ptr\<close> points either at the local variable \<^verbatim>\<open>head\<close> or at the
  \<^verbatim>\<open>next\<close> field of a node; \<^verbatim>\<open>node\<close> points at the local \<^verbatim>\<open>l1\<close> or \<^verbatim>\<open>l2\<close>.
\<close>

datatype loc = Local_head | Next_of ptr

datatype sel = Sel_l1 | Sel_l2

definition store :: "loc \<Rightarrow> ptr \<Rightarrow> heap \<times> ptr \<Rightarrow> heap \<times> ptr" where
  "store p v s =
     (case p of
        Local_head \<Rightarrow> (fst s, v)
      | Next_of n \<Rightarrow> ((fst s)\<lparr>nxt := (nxt (fst s))(n := v)\<rparr>, snd s))"

partial_function (option) mergeTwoLists_loop ::
    "heap \<Rightarrow> ptr \<Rightarrow> ptr \<Rightarrow> ptr \<Rightarrow> loc \<Rightarrow> (heap \<times> ptr \<times> ptr \<times> ptr \<times> loc) option" where
  "mergeTwoLists_loop h l1 l2 head ptr =
     (if l1 \<noteq> NULL \<and> l2 \<noteq> NULL
      then let node = (if strcmp (str h (val h l1)) (str h (val h l2)) < 0
                       then Sel_l1 else Sel_l2);
               cur = (case node of Sel_l1 \<Rightarrow> l1 | Sel_l2 \<Rightarrow> l2);
               (h1, head1) = store ptr cur (h, head);
               ptr1 = Next_of cur
           in (case node of
                 Sel_l1 \<Rightarrow> mergeTwoLists_loop h1 (nxt h1 l1) l2 head1 ptr1
               | Sel_l2 \<Rightarrow> mergeTwoLists_loop h1 l1 (nxt h1 l2) head1 ptr1)
      else Some (h, l1, l2, head, ptr))"

declare mergeTwoLists_loop.simps [code]

definition mergeTwoLists :: "heap \<Rightarrow> ptr \<Rightarrow> ptr \<Rightarrow> (ptr \<times> heap) option" where
  "mergeTwoLists h l1 l2 =
     (case mergeTwoLists_loop h l1 l2 NULL Local_head of
        None \<Rightarrow> None
      | Some (h1, l1', l2', head, ptr) \<Rightarrow>
          let (h2, head2) = store ptr (l1' OR l2') (h1, head) in Some (head2, h2))"

partial_function (option) mergesort_loop :: "heap \<Rightarrow> ptr \<Rightarrow> ptr \<Rightarrow> ptr option" where
  "mergesort_loop h fast slow =
     (if fast \<noteq> NULL \<and> nxt h fast \<noteq> NULL
      then mergesort_loop h (nxt h (nxt h fast)) (nxt h slow)
      else Some slow)"

declare mergesort_loop.simps [code]

partial_function (option) mergesort :: "heap \<Rightarrow> ptr \<Rightarrow> (ptr \<times> heap) option" where
  "mergesort h head =
     (if head = NULL \<or> nxt h head = NULL then Some (head, h)
      else Option.bind (mergesort_loop h (nxt h head) head) (\<lambda>slow.
             let right = nxt h slow;
                 h1 = h\<lparr>nxt := (nxt h)(slow := NULL)\<rparr>
             in Option.bind (mergesort h1 head) (\<lambda>(left, h2).
                  Option.bind (mergesort h2 right) (\<lambda>(right', h3).
                    mergeTwoLists h3 left right'))))"

declare mergesort.simps [code]

partial_function (option) q_sort_loop :: "heap \<Rightarrow> ptr \<Rightarrow> ptr \<Rightarrow> (heap \<times> ptr) option" where
  "q_sort_loop h l prev =
     (if nxt h l \<noteq> NULL
      then let h1 = h\<lparr>prv := (prv h)(l := prev)\<rparr> in q_sort_loop h1 (nxt h1 l) l
      else Some (h, l))"

declare q_sort_loop.simps [code]

definition q_sort :: "heap \<Rightarrow> ptr \<Rightarrow> heap option" where
  "q_sort h head =
     (if (head = NULL \<or> list_empty h head) \<or> list_is_singular h head then Some h
      else let h1 = h\<lparr>nxt := (nxt h)(prv h head := NULL)\<rparr>
           in Option.bind (mergesort h1 (nxt h1 head)) (\<lambda>(r, h2).
                let h3 = h2\<lparr>nxt := (nxt h2)(head := r)\<rparr>
                in Option.bind (q_sort_loop h3 (nxt h3 head) head) (\<lambda>(h4, l).
                     let h5 = h4\<lparr>nxt := (nxt h4)(l := head)\<rparr>
                     in Some (h5\<lparr>prv := (prv h5)(head := l)\<rparr>))))"

section \<open>Abstraction\<close>

text \<open>
  \<open>dll h p xs q\<close>: starting at node \<open>p\<close>, the \<open>next\<close> links visit the nodes \<open>xs\<close> and
  then \<open>q\<close>, and every \<open>prev\<close> link on the way points back. A queue with
  sentinel \<open>head\<close> and element nodes \<open>xs\<close> (front to back) is such a ring from \<open>head\<close> to
  \<open>head\<close> over distinct non-null nodes.
\<close>

fun dll :: "heap \<Rightarrow> ptr \<Rightarrow> ptr list \<Rightarrow> ptr \<Rightarrow> bool" where
  "dll h p [] q \<longleftrightarrow> nxt h p = q \<and> prv h q = p"
| "dll h p (x # xs) q \<longleftrightarrow> nxt h p = x \<and> prv h x = p \<and> dll h x xs q"

definition ring :: "heap \<Rightarrow> ptr \<Rightarrow> ptr list \<Rightarrow> bool" where
  "ring h head xs \<longleftrightarrow>
     head \<noteq> NULL \<and> NULL \<notin> set xs \<and> distinct (head # xs) \<and> dll h head xs head"

text \<open>\<open>path h p xs q\<close>: the \<open>next\<close> links from \<open>p\<close> run through exactly the nodes \<open>xs\<close> and arrive at \<open>q\<close>.\<close>

fun path :: "heap \<Rightarrow> ptr \<Rightarrow> ptr list \<Rightarrow> ptr \<Rightarrow> bool" where
  "path h p [] q \<longleftrightarrow> p = q"
| "path h p (x # xs) q \<longleftrightarrow> p = x \<and> path h (nxt h x) xs q"

text \<open>A NULL-terminated singly-linked chain of the nodes \<open>xs\<close>, starting at \<open>p\<close>.\<close>

definition chain :: "heap \<Rightarrow> ptr \<Rightarrow> ptr list \<Rightarrow> bool" where
  "chain h p xs \<longleftrightarrow> NULL \<notin> set xs \<and> path h p xs NULL"

text \<open>
  The queue as its forward traversal shows it: from the sentinel, the \<open>next\<close> links run
  through the distinct non-null nodes \<open>xs\<close> and return to the sentinel.
\<close>

definition forward :: "heap \<Rightarrow> ptr \<Rightarrow> ptr list \<Rightarrow> bool" where
  "forward h head xs \<longleftrightarrow>
     head \<noteq> NULL \<and> NULL \<notin> set xs \<and> distinct (head # xs) \<and> path h (nxt h head) xs head"

text \<open>The string held by an element, and the value sequence of a list of elements.\<close>

definition value_of :: "heap \<Rightarrow> ptr \<Rightarrow> string" where
  "value_of h e = str h (val h e)"

definition values_of :: "heap \<Rightarrow> ptr list \<Rightarrow> string list" where
  "values_of h xs = map (value_of h) xs"

text \<open>The ring invariant in the form the specification gives it, at one node.\<close>

definition links_ok :: "heap \<Rightarrow> ptr \<Rightarrow> bool" where
  "links_ok h n \<longleftrightarrow> prv h (nxt h n) = n \<and> nxt h (prv h n) = n"

text \<open>
  The blocks a queue owns are its sentinel, its element nodes and their strings. A
  well-formed queue is a ring whose blocks are distinct, non-null and live.
\<close>

definition owned :: "heap \<Rightarrow> ptr \<Rightarrow> ptr list \<Rightarrow> ptr list" where
  "owned h head xs = head # xs @ map (val h) xs"

definition queue :: "heap \<Rightarrow> ptr \<Rightarrow> ptr list \<Rightarrow> bool" where
  "queue h head xs \<longleftrightarrow>
     dll h head xs head \<and> distinct (owned h head xs) \<and> NULL \<notin> set (owned h head xs) \<and>
     set (owned h head xs) \<subseteq> alloc h"

text \<open>
  The merge and the merge sort on lists of nodes, with the choices the code makes: the
  head of the first list is taken when its value compares less, otherwise the head of the
  second; a list of two or more nodes is split behind its first \<open>(n + 1) div 2\<close> nodes.
  \<open>v\<close> gives the string of a node.
\<close>

fun merge_nodes :: "(ptr \<Rightarrow> string) \<Rightarrow> ptr list \<Rightarrow> ptr list \<Rightarrow> ptr list" where
  "merge_nodes v [] ys = ys"
| "merge_nodes v (x # xs) [] = x # xs"
| "merge_nodes v (x # xs) (y # ys) =
     (if strcmp (v x) (v y) < 0 then x # merge_nodes v xs (y # ys)
      else y # merge_nodes v (x # xs) ys)"

function msort_nodes :: "(ptr \<Rightarrow> string) \<Rightarrow> ptr list \<Rightarrow> ptr list" where
  "msort_nodes v xs =
     (if length xs \<le> 1 then xs
      else merge_nodes v (msort_nodes v (take ((length xs + 1) div 2) xs))
             (msort_nodes v (drop ((length xs + 1) div 2) xs)))"
  by pat_completeness auto
termination
  by (relation "measure (\<lambda>(v, xs). length xs)") auto

declare msort_nodes.simps [simp del]

text \<open>
  What the loop of \<open>q_delete_dup\<close> does to the list of nodes: a node whose successor
  has an equal value is dropped, so of every run of equal values the last node stays.
\<close>

fun drop_before_equal :: "(ptr \<Rightarrow> string) \<Rightarrow> ptr list \<Rightarrow> ptr list" where
  "drop_before_equal v [] = []"
| "drop_before_equal v [x] = [x]"
| "drop_before_equal v (x # y # zs) =
     (if strcmp (v x) (v y) = 0 then drop_before_equal v (y # zs)
      else x # drop_before_equal v (y # zs))"

text \<open>
  The output of the merge while it is built: \<open>out\<close> are the nodes appended so far, in
  order; \<open>ptr\<close> is the place where the next node will be stored.
\<close>

definition partial_out :: "heap \<Rightarrow> ptr \<Rightarrow> loc \<Rightarrow> ptr list \<Rightarrow> bool" where
  "partial_out h head ptr out \<longleftrightarrow>
     (if out = [] then ptr = Local_head
      else ptr = Next_of (last out) \<and> path h head (butlast out) (last out))"

section \<open>Example queues\<close>

text \<open>
  \<open>mk_queue head es\<close> is a heap holding one queue: the sentinel at \<open>head\<close> and, front to
  back, one element per entry \<open>(e, v, s)\<close> of \<open>es\<close>, with its node at address \<open>e\<close> and
  its string \<open>s\<close> stored at address \<open>v\<close>. Every other field is zero and every other byte
  is \<open>x\<close>.
\<close>

definition lookup :: "(ptr \<times> 'a) list \<Rightarrow> 'a \<Rightarrow> ptr \<Rightarrow> 'a" where
  "lookup t d p = (case map_of t p of Some v \<Rightarrow> v | None \<Rightarrow> d)"

definition mk_queue :: "ptr \<Rightarrow> (ptr \<times> ptr \<times> string) list \<Rightarrow> heap" where
  "mk_queue head es =
     \<lparr>nxt = lookup (zip (head # map fst es) (map fst es @ [head])) 0,
      prv = lookup (zip (map fst es @ [head]) (head # map fst es)) 0,
      val = lookup (zip (map fst es) (map (fst \<circ> snd) es)) 0,
      str = lookup (zip (map (fst \<circ> snd) es) (map (snd \<circ> snd) es)) [],
      bytes = (\<lambda>_. CHR ''x''),
      alloc = set (head # map fst es @ map (fst \<circ> snd) es)\<rparr>"

definition queue_aabcc :: heap where
  "queue_aabcc =
     mk_queue 1 [(2, 3, ''a''), (4, 5, ''a''), (6, 7, ''b''), (8, 9, ''c''), (10, 11, ''c'')]"

definition queue_ba :: heap where
  "queue_ba = mk_queue 1 [(2, 3, ''b''), (4, 5, ''a'')]"

definition queue_aa :: heap where
  "queue_aa = mk_queue 1 [(2, 3, ''a''), (4, 5, ''a'')]"

definition queue_abc :: heap where
  "queue_abc = mk_queue 1 [(2, 3, ''abc'')]"

definition queue_abcde :: heap where
  "queue_abcde =
     mk_queue 1 [(2, 3, ''a''), (4, 5, ''b''), (6, 7, ''c''), (8, 9, ''d''), (10, 11, ''e'')]"

definition queue_abcd :: heap where
  "queue_abcd = mk_queue 1 [(2, 3, ''a''), (4, 5, ''b''), (6, 7, ''c''), (8, 9, ''d'')]"

definition queue_bac :: heap where
  "queue_bac = mk_queue 1 [(2, 3, ''b''), (4, 5, ''a''), (6, 7, ''c'')]"

text \<open>The chain 2, 4, 6 left when the last node of \<open>queue_bac\<close> is cut from the sentinel.\<close>

definition chain_bac :: heap where
  "chain_bac = queue_bac\<lparr>nxt := (nxt queue_bac)(6 := NULL)\<rparr>"

text \<open>
  A new queue at address 1 in an empty heap, and the heap after inserting \<open>b\<close>, \<open>a\<close>, \<open>c\<close>
  at its tail (the allocator hands out the blocks 2 to 7 in turn).
\<close>

definition heap0 :: heap where
  "heap0 = \<lparr>nxt = (\<lambda>_. 0), prv = (\<lambda>_. 0), val = (\<lambda>_. 0), str = (\<lambda>_. []),
            bytes = (\<lambda>_. CHR ''x''), alloc = {}\<rparr>"

definition inserted_b :: heap where
  "inserted_b = snd (q_insert_tail (snd (q_new heap0 1)) 1 ''b'' 2 3)"

definition inserted_ba :: heap where
  "inserted_ba = snd (q_insert_tail inserted_b 1 ''a'' 4 5)"

definition inserted_bac :: heap where
  "inserted_bac = snd (q_insert_tail inserted_ba 1 ''c'' 6 7)"

text \<open>Two chains in one heap: 2 alone and 4, 6 (values \<open>b\<close> and \<open>a, c\<close>).\<close>

definition chains_b_ac :: heap where
  "chains_b_ac = queue_bac\<lparr>nxt := (nxt queue_bac)(2 := NULL, 6 := NULL)\<rparr>"

text \<open>Two chains of one node each, 2 and 4, with equal values.\<close>

definition chains_a_a :: heap where
  "chains_a_a = queue_aa\<lparr>nxt := (nxt queue_aa)(2 := NULL, 4 := NULL)\<rparr>"


section \<open>Links of a ring under the list primitives\<close>

lemma dll_append:
  "dll h p (xs @ y # ys) q \<longleftrightarrow> dll h p xs y \<and> dll h y ys q"
  by (induction xs arbitrary: p) auto

lemma dll_eqI:
  "dll h p xs q \<Longrightarrow> (\<And>a. a \<in> set (p # xs) \<Longrightarrow> nxt h' a = nxt h a) \<Longrightarrow>
   (\<And>b. b \<in> set (xs @ [q]) \<Longrightarrow> prv h' b = prv h b) \<Longrightarrow> dll h' p xs q"
  by (induction xs arbitrary: p) auto

lemma dll_nxt_first: "dll h p xs q \<Longrightarrow> nxt h p = hd (xs @ [q])"
  by (cases xs) auto

lemma dll_prv_last: "dll h p xs q \<Longrightarrow> prv h q = last (p # xs)"
  by (induction xs arbitrary: p) auto

lemma dll_path: "dll h p xs q \<Longrightarrow> path h (nxt h p) xs q"
  by (induction xs arbitrary: p) auto

lemma list_del_nxt: "nxt (list_del x h) = (nxt h)(prv h x := nxt h x)"
  by (simp add: list_del_def Let_def)

lemma list_del_prv: "prv (list_del x h) = (prv h)(nxt h x := prv h x)"
  by (simp add: list_del_def Let_def)

lemma dll_unlink:
  "dll h p as x \<Longrightarrow> dll h x bs q \<Longrightarrow> distinct (p # as @ x # bs) \<Longrightarrow>
   distinct (as @ x # bs @ [q]) \<Longrightarrow> dll (list_del x h) p (as @ bs) q"
proof (induction as arbitrary: p)
  case Nil
  then have px: "prv h x = p" "nxt h p = x" by auto
  show ?case
  proof (cases bs)
    case Nil
    with \<open>dll h x bs q\<close> px show ?thesis by (simp add: list_del_nxt list_del_prv)
  next
    case (Cons n list)
    with Nil.prems have n: "nxt h x = n" "dll h n list q" by auto
    have "dll (list_del x h) n list q"
      by (rule dll_eqI[OF n(2)]) (use Nil.prems Cons px n in \<open>auto simp: list_del_nxt list_del_prv\<close>)
    then show ?thesis using px n Cons by (simp add: list_del_nxt list_del_prv)
  qed
next
  case (Cons a as)
  from Cons.prems have px: "prv h x = last (a # as)" "nxt h x = hd (bs @ [q])"
    using dll_prv_last[of h a as x] dll_nxt_first[of h x bs q] by auto
  have ih: "dll (list_del x h) a (as @ bs) q"
    using Cons.prems by (intro Cons.IH) auto
  have 1: "prv h x \<noteq> p" using Cons.prems px by auto
  have 2: "nxt h x \<noteq> a" using Cons.prems px by (cases bs) auto
  from Cons.prems have "nxt h p = a" "prv h a = p" by auto
  with ih 1 2 show ?case by (simp add: list_del_nxt list_del_prv)
qed

lemma ring_list_del:
  assumes "ring h head (as @ x # bs)"
  shows "ring (list_del x h) head (as @ bs)"
proof -
  from assms have d: "dll h head as x" "dll h x bs head"
    and dist: "distinct (head # as @ x # bs)" "distinct (as @ x # bs @ [head])"
    by (auto simp: ring_def dll_append)
  from dll_unlink[OF d dist] assms show ?thesis
    by (auto simp: ring_def)
qed

lemma ring_list_add:
  assumes "ring h head xs" "e \<noteq> NULL" "e \<notin> set (head # xs)"
  shows "ring (list_add e head h) head (e # xs)"
proof (cases xs)
  case Nil
  with assms show ?thesis by (auto simp: ring_def list_add_def Let_def)
next
  case (Cons y ys)
  with assms have d: "dll h y ys head" and y: "nxt h head = y"
    by (auto simp: ring_def)
  have "dll (list_add e head h) y ys head"
    by (rule dll_eqI[OF d]) (use assms Cons in \<open>auto simp: ring_def list_add_def Let_def\<close>)
  with assms Cons y show ?thesis by (auto simp: ring_def list_add_def Let_def)
qed

lemma ring_list_add_tail:
  assumes "ring h head xs" "e \<noteq> NULL" "e \<notin> set (head # xs)"
  shows "ring (list_add_tail e head h) head (xs @ [e])"
proof (cases xs rule: rev_cases)
  case Nil
  with assms show ?thesis by (auto simp: ring_def list_add_tail_def Let_def)
next
  case (snoc ys y)
  with assms have y: "prv h head = y" "nxt h y = head" and d: "dll h head ys y"
    by (auto simp: ring_def dll_append)
  have "dll (list_add_tail e head h) head ys y"
    by (rule dll_eqI[OF d]) (use assms snoc y in \<open>auto simp: ring_def list_add_tail_def Let_def\<close>)
  with assms snoc y show ?thesis
    by (auto simp: ring_def list_add_tail_def Let_def dll_append)
qed

section \<open>Removal at the two ends\<close>

lemma dll_links_cong: "nxt h' = nxt h \<Longrightarrow> prv h' = prv h \<Longrightarrow> dll h' p xs q = dll h p xs q"
  by (induction xs arbitrary: p) auto

lemma ring_eqI: "ring h head xs \<Longrightarrow> nxt h' = nxt h \<Longrightarrow> prv h' = prv h \<Longrightarrow> ring h' head xs"
  by (simp add: ring_def dll_links_cong[of h' h])

lemma ring_nxt_head: "ring h head xs \<Longrightarrow> nxt h head = hd (xs @ [head])"
  by (auto simp: ring_def dest: dll_nxt_first)

lemma ring_prv_head: "ring h head xs \<Longrightarrow> prv h head = last (head # xs)"
  by (auto simp: ring_def dest: dll_prv_last)

lemma ring_list_empty: "ring h head xs \<Longrightarrow> list_empty h head \<longleftrightarrow> xs = []"
  by (cases xs) (auto simp: list_empty_def ring_def)

lemma list_del_frame [simp]:
  "val (list_del x h) = val h" "str (list_del x h) = str h" "bytes (list_del x h) = bytes h"
  "alloc (list_del x h) = alloc h"
  by (simp_all add: list_del_def Let_def)

lemma q_remove_head_null_or_empty:
  assumes "head = NULL \<or> ring h head []"
  shows "q_remove_head h head sp bufsize = (NULL, h)"
  using assms by (auto simp: q_remove_head_def ring_list_empty)

lemma q_remove_tail_null_or_empty:
  assumes "head = NULL \<or> ring h head []"
  shows "q_remove_tail h head sp bufsize = (NULL, h)"
  using assms by (auto simp: q_remove_tail_def ring_list_empty)

lemma q_remove_head_unlinks:
  assumes "ring h head (x # xs)"
  shows "fst (q_remove_head h head sp bufsize) = x"
    and "ring (snd (q_remove_head h head sp bufsize)) head xs"
    and "alloc (snd (q_remove_head h head sp bufsize)) = alloc h"
    and "val (snd (q_remove_head h head sp bufsize)) = val h"
    and "str (snd (q_remove_head h head sp bufsize)) = str h"
proof -
  from assms have ne: "head \<noteq> NULL" "\<not> list_empty h head" and x: "nxt h head = x"
    by (auto simp: ring_list_empty ring_nxt_head) (simp add: ring_def)
  from ring_list_del[of h head "[]" x xs] assms have r: "ring (list_del x h) head xs" by simp
  show "fst (q_remove_head h head sp bufsize) = x"
    using ne x by (simp add: q_remove_head_def Let_def)
  show "ring (snd (q_remove_head h head sp bufsize)) head xs"
    using ne x by (auto simp: q_remove_head_def Let_def strncpy_def intro!: ring_eqI[OF r])
  show "alloc (snd (q_remove_head h head sp bufsize)) = alloc h"
    "val (snd (q_remove_head h head sp bufsize)) = val h"
    "str (snd (q_remove_head h head sp bufsize)) = str h"
    using ne x by (simp_all add: q_remove_head_def Let_def strncpy_def)
qed

lemma q_remove_tail_unlinks:
  assumes "ring h head (xs @ [x])"
  shows "fst (q_remove_tail h head sp bufsize) = x"
    and "ring (snd (q_remove_tail h head sp bufsize)) head xs"
    and "alloc (snd (q_remove_tail h head sp bufsize)) = alloc h"
    and "val (snd (q_remove_tail h head sp bufsize)) = val h"
    and "str (snd (q_remove_tail h head sp bufsize)) = str h"
proof -
  from assms have ne: "head \<noteq> NULL" "\<not> list_empty h head" and x: "prv h head = x"
    by (auto simp: ring_list_empty ring_prv_head) (simp add: ring_def)
  from ring_list_del[of h head xs x "[]"] assms have r: "ring (list_del x h) head xs" by simp
  show "fst (q_remove_tail h head sp bufsize) = x"
    using ne x by (simp add: q_remove_tail_def Let_def)
  show "ring (snd (q_remove_tail h head sp bufsize)) head xs"
    using ne x by (auto simp: q_remove_tail_def Let_def strncpy_def intro!: ring_eqI[OF r])
  show "alloc (snd (q_remove_tail h head sp bufsize)) = alloc h"
    "val (snd (q_remove_tail h head sp bufsize)) = val h"
    "str (snd (q_remove_tail h head sp bufsize)) = str h"
    using ne x by (simp_all add: q_remove_tail_def Let_def strncpy_def)
qed

lemma size_minus_one_less: "0 < (n :: 64 word) \<Longrightarrow> n - 1 < n"
  by unat_arith

lemma terminator_address: "a = sp + (n - 1) \<longleftrightarrow> a - sp = n - (1 :: 64 word)"
  by (metis add_diff_cancel_left' diff_add_cancel)

lemma q_remove_head_copy:
  assumes "ring h head (x # xs)"
  shows "bytes (snd (q_remove_head h head sp bufsize)) a =
     (if sp = NULL then bytes h a
      else if a - sp = bufsize - 1 then CHR 0x00
      else if a - sp < bufsize
      then (if unat (a - sp) < length (cstr (value_of h x))
            then cstr (value_of h x) ! unat (a - sp) else CHR 0x00)
      else bytes h a)"
proof -
  from assms have ne: "head \<noteq> NULL" "\<not> list_empty h head" and x: "nxt h head = x"
    by (auto simp: ring_list_empty ring_nxt_head) (simp add: ring_def)
  then show ?thesis
    by (simp add: q_remove_head_def Let_def strncpy_def terminator_address value_of_def)
qed

lemma q_remove_tail_copy:
  assumes "ring h head (xs @ [x])"
  shows "bytes (snd (q_remove_tail h head sp bufsize)) a =
     (if sp = NULL then bytes h a
      else if a - sp = bufsize - 1 then CHR 0x00
      else if a - sp < bufsize
      then (if unat (a - sp) < length (cstr (value_of h x))
            then cstr (value_of h x) ! unat (a - sp) else CHR 0x00)
      else bytes h a)"
proof -
  from assms have ne: "head \<noteq> NULL" "\<not> list_empty h head" and x: "prv h head = x"
    by (auto simp: ring_list_empty ring_prv_head) (simp add: ring_def)
  then show ?thesis
    by (simp add: q_remove_tail_def Let_def strncpy_def terminator_address value_of_def)
qed

text \<open>
  With a positive capacity every byte written lies inside the buffer, that is at an
  address \<open>a\<close> with \<open>a - sp < bufsize\<close>.
\<close>

lemma q_remove_head_in_bounds:
  assumes "ring h head (x # xs)" "0 < bufsize" "\<not> a - sp < bufsize"
  shows "bytes (snd (q_remove_head h head sp bufsize)) a = bytes h a"
  using size_minus_one_less[OF assms(2)] assms(3)
  by (auto simp: q_remove_head_copy[OF assms(1)])

lemma q_remove_tail_in_bounds:
  assumes "ring h head (xs @ [x])" "0 < bufsize" "\<not> a - sp < bufsize"
  shows "bytes (snd (q_remove_tail h head sp bufsize)) a = bytes h a"
  using size_minus_one_less[OF assms(2)] assms(3)
  by (auto simp: q_remove_tail_copy[OF assms(1)])

text \<open>With capacity 0 and a non-null buffer the byte before the buffer is overwritten.\<close>

lemma q_remove_head_capacity_0:
  assumes "ring h head (x # xs)" "sp \<noteq> NULL"
  shows "bytes (snd (q_remove_head h head sp 0)) (sp - 1) = CHR 0x00"
  using assms(2) by (simp add: q_remove_head_copy[OF assms(1)])

section \<open>Insertion at the two ends\<close>

lemma queue_ring: "queue h head xs \<Longrightarrow> ring h head xs"
  by (auto simp: queue_def ring_def owned_def)

lemma queueI:
  "ring h head xs \<Longrightarrow> distinct (map (val h) xs) \<Longrightarrow> NULL \<notin> val h ` set xs \<Longrightarrow>
   val h ` set xs \<inter> set (head # xs) = {} \<Longrightarrow> set (head # xs) \<subseteq> alloc h \<Longrightarrow>
   val h ` set xs \<subseteq> alloc h \<Longrightarrow> queue h head xs"
  by (auto simp: queue_def ring_def owned_def)

lemma queue_fresh:
  assumes "queue h head xs" "a \<notin> alloc h"
  shows "a \<noteq> head" "a \<notin> set xs" "a \<notin> val h ` set xs"
  using assms by (auto simp: queue_def owned_def)

lemma list_add_frame [simp]:
  "val (list_add e head h) = val h" "str (list_add e head h) = str h"
  "bytes (list_add e head h) = bytes h" "alloc (list_add e head h) = alloc h"
  by (simp_all add: list_add_def Let_def)

lemma list_add_tail_frame [simp]:
  "val (list_add_tail e head h) = val h" "str (list_add_tail e head h) = str h"
  "bytes (list_add_tail e head h) = bytes h" "alloc (list_add_tail e head h) = alloc h"
  by (simp_all add: list_add_tail_def Let_def)

text \<open>The three ways out of an insertion, as equations.\<close>

lemma q_insert_head_fails:
  assumes "head = NULL \<or> re = NULL"
  shows "q_insert_head h head s re rs = (False, h)"
  using assms by (auto simp: q_insert_head_def malloc_def)

lemma q_insert_tail_fails:
  assumes "head = NULL \<or> re = NULL"
  shows "q_insert_tail h head s re rs = (False, h)"
  using assms by (auto simp: q_insert_tail_def malloc_def)

lemma q_insert_head_rollback:
  assumes "head \<noteq> NULL" "re \<noteq> NULL" "re \<notin> alloc h"
  shows "q_insert_head h head s re NULL = (False, h\<lparr>val := (val h)(re := NULL)\<rparr>)"
  using assms by (simp add: q_insert_head_def malloc_def strdup_def free_def)

lemma q_insert_tail_rollback:
  assumes "head \<noteq> NULL" "re \<noteq> NULL" "re \<notin> alloc h"
  shows "q_insert_tail h head s re NULL = (False, h\<lparr>val := (val h)(re := NULL)\<rparr>)"
  using assms by (simp add: q_insert_tail_def malloc_def strdup_def free_def)

lemma q_insert_head_links:
  assumes "head \<noteq> NULL" "re \<noteq> NULL" "rs \<noteq> NULL"
  shows "q_insert_head h head s re rs =
    (True, list_add re head
       (h\<lparr>str := (str h)(rs := s), alloc := insert rs (insert re (alloc h)),
          val := (val h)(re := rs)\<rparr>))"
  using assms by (simp add: q_insert_head_def malloc_def strdup_def)

lemma q_insert_tail_links:
  assumes "head \<noteq> NULL" "re \<noteq> NULL" "rs \<noteq> NULL"
  shows "q_insert_tail h head s re rs =
    (True, list_add_tail re head
       (h\<lparr>str := (str h)(rs := s), alloc := insert rs (insert re (alloc h)),
          val := (val h)(re := rs)\<rparr>))"
  using assms by (simp add: q_insert_tail_def malloc_def strdup_def)

lemma values_of_new_block:
  assumes "queue h head xs" "re \<notin> alloc h" "rs \<notin> alloc h"
    and "val h' = (val h)(re := rs)" "str h' = (str h)(rs := s)"
  shows "values_of h' xs = values_of h xs"
  using assms queue_fresh[OF assms(1,2)] queue_fresh[OF assms(1,3)]
  by (auto simp: values_of_def value_of_def)

lemma queue_new_front:
  assumes q: "queue h head xs" and "re \<noteq> NULL" "rs \<noteq> NULL" "re \<notin> alloc h" "rs \<notin> alloc h" "rs \<noteq> re"
    and h': "h' = list_add re head (h\<lparr>str := (str h)(rs := s), alloc := insert rs (insert re (alloc h)),
          val := (val h)(re := rs)\<rparr>)"
  shows "queue h' head (re # xs)"
proof -
  let ?g = "h\<lparr>str := (str h)(rs := s), alloc := insert rs (insert re (alloc h)),
          val := (val h)(re := rs)\<rparr>"
  note f = queue_fresh[OF q \<open>re \<notin> alloc h\<close>] queue_fresh[OF q \<open>rs \<notin> alloc h\<close>]
  have "ring ?g head xs" by (rule ring_eqI[OF queue_ring[OF q]]) simp_all
  then have r: "ring h' head (re # xs)"
    unfolding h' using f assms(2) by (intro ring_list_add) auto
  have v: "map (val h') xs = map (val h) xs" using f by (auto simp: h')
  show ?thesis
    by (rule queueI[OF r]) (use q f assms(2-6) v in \<open>auto simp: queue_def owned_def h'\<close>)
qed

lemma queue_new_back:
  assumes q: "queue h head xs" and "re \<noteq> NULL" "rs \<noteq> NULL" "re \<notin> alloc h" "rs \<notin> alloc h" "rs \<noteq> re"
    and h': "h' = list_add_tail re head (h\<lparr>str := (str h)(rs := s), alloc := insert rs (insert re (alloc h)),
          val := (val h)(re := rs)\<rparr>)"
  shows "queue h' head (xs @ [re])"
proof -
  let ?g = "h\<lparr>str := (str h)(rs := s), alloc := insert rs (insert re (alloc h)),
          val := (val h)(re := rs)\<rparr>"
  note f = queue_fresh[OF q \<open>re \<notin> alloc h\<close>] queue_fresh[OF q \<open>rs \<notin> alloc h\<close>]
  have "ring ?g head xs" by (rule ring_eqI[OF queue_ring[OF q]]) simp_all
  then have r: "ring h' head (xs @ [re])"
    unfolding h' using f assms(2) by (intro ring_list_add_tail) auto
  have v: "map (val h') xs = map (val h) xs" using f by (auto simp: h')
  show ?thesis
    by (rule queueI[OF r]) (use q f assms(2-6) v in \<open>auto simp: queue_def owned_def h'\<close>)
qed

section \<open>Deleting the middle element\<close>

lemma dll_nth:
  "dll h p xs q \<Longrightarrow> i \<le> length xs \<Longrightarrow> nxt h ((p # xs) ! i) = (xs @ [q]) ! i"
proof (induction xs arbitrary: p i)
  case Nil
  then show ?case by simp
next
  case (Cons x xs)
  then show ?case by (cases i) auto
qed

lemma ring_nth_nxt:
  assumes "ring h head xs" "i \<le> length xs"
  shows "nxt h ((head # xs) ! i) = (xs @ [head]) ! i"
  using assms by (auto simp: ring_def intro: dll_nth)

lemma ring_nth_is_head:
  assumes "ring h head xs" "i \<le> length xs"
  shows "(xs @ [head]) ! i = head \<longleftrightarrow> i = length xs"
proof
  assume "(xs @ [head]) ! i = head"
  show "i = length xs"
  proof (rule ccontr)
    assume "i \<noteq> length xs"
    with assms have "i < length xs" by simp
    then have "(xs @ [head]) ! i \<in> set xs" by (simp add: nth_append)
    with \<open>(xs @ [head]) ! i = head\<close> assms show False by (auto simp: ring_def)
  qed
qed (simp add: nth_append)

lemma q_delete_mid_loop_finds_middle:
  assumes r: "ring h head xs"
  shows "2 * k \<le> length xs \<Longrightarrow>
         q_delete_mid_loop h head ((xs @ [head]) ! (2 * k)) ((head # xs) ! k) =
           Some ((head # xs) ! (length xs div 2))"
proof (induction "length xs - 2 * k" arbitrary: k rule: less_induct)
  case less
  let ?n = "length xs"
  let ?fast = "(xs @ [head]) ! (2 * k)"
  have f1: "?fast \<noteq> head \<longleftrightarrow> 2 * k < ?n"
    using ring_nth_is_head[OF r, of "2 * k"] less.prems by auto
  show ?case
  proof (cases "2 * k + 1 < ?n")
    case True
    then have fast: "?fast = (head # xs) ! (2 * k + 1)" by (simp add: nth_append)
    have n1: "nxt h ?fast = (xs @ [head]) ! (2 * k + 1)"
      unfolding fast using True by (intro ring_nth_nxt[OF r]) simp
    then have n2: "nxt h ?fast = (head # xs) ! (2 * k + 2)" using True by (simp add: nth_append)
    have n3: "nxt h (nxt h ?fast) = (xs @ [head]) ! (2 * (k + 1))"
      unfolding n2 using True ring_nth_nxt[OF r, of "2 * k + 2"] by simp
    have i1: "nxt h ((head # xs) ! k) = (head # xs) ! (k + 1)"
      using True ring_nth_nxt[OF r, of k] by (simp add: nth_append)
    have c: "nxt h ?fast \<noteq> head"
      unfolding n1 using ring_nth_is_head[OF r, of "2 * k + 1"] True by simp
    have "q_delete_mid_loop h head (nxt h (nxt h ?fast)) (nxt h ((head # xs) ! k)) =
            Some ((head # xs) ! (?n div 2))"
      unfolding n3 i1 using True by (intro less.hyps) auto
    with c f1 True show ?thesis
      by (subst q_delete_mid_loop.simps) simp
  next
    case False
    have "\<not> (?fast \<noteq> head \<and> nxt h ?fast \<noteq> head)"
    proof (cases "2 * k < ?n")
      case True
      with False have k: "2 * k + 1 = ?n" by simp
      from True have fast: "?fast = (head # xs) ! (2 * k + 1)" by (simp add: nth_append)
      have "nxt h ?fast = (xs @ [head]) ! (2 * k + 1)"
        unfolding fast using k by (intro ring_nth_nxt[OF r]) simp
      with k show ?thesis by (simp add: nth_append)
    next
      case False
      with f1 show ?thesis by simp
    qed
    moreover from False less.prems have "?n div 2 = k" by linarith
    ultimately show ?thesis
      by (subst q_delete_mid_loop.simps) auto
  qed
qed

lemma queue_unlink_release:
  assumes q: "queue h head (as @ x # bs)"
  shows "queue (q_release_element x (list_del x h)) head (as @ bs)"
    and "alloc (q_release_element x (list_del x h)) = alloc h - {x, val h x}"
    and "val (q_release_element x (list_del x h)) = val h"
    and "str (q_release_element x (list_del x h)) = str h"
proof -
  let ?h' = "q_release_element x (list_del x h)"
  from q have nz: "x \<noteq> NULL" "val h x \<noteq> NULL" by (auto simp: queue_def owned_def)
  then show a: "alloc ?h' = alloc h - {x, val h x}" and v: "val ?h' = val h" and "str ?h' = str h"
    by (auto simp: q_release_element_def free_def)
  have "ring (list_del x h) head (as @ bs)"
    using queue_ring[OF q] by (rule ring_list_del)
  then have r: "ring ?h' head (as @ bs)"
    by (rule ring_eqI) (use nz in \<open>auto simp: q_release_element_def free_def\<close>)
  show "queue ?h' head (as @ bs)"
    by (rule queueI[OF r]) (use q in \<open>auto simp: a v queue_def owned_def image_iff\<close>)
qed

lemma values_of_eqI: "val h' = val h \<Longrightarrow> str h' = str h \<Longrightarrow> values_of h' xs = values_of h xs"
  by (simp add: values_of_def value_of_def)

section \<open>Reversal\<close>

lemma list_move_frame [simp]:
  "val (list_move x head h) = val h" "str (list_move x head h) = str h"
  "bytes (list_move x head h) = bytes h" "alloc (list_move x head h) = alloc h"
  by (simp_all add: list_move_def)

lemma ring_list_move:
  assumes "ring h head (as @ x # bs)"
  shows "ring (list_move x head h) head (x # as @ bs)"
proof -
  from assms have "x \<noteq> NULL" "x \<notin> set (head # as @ bs)" by (auto simp: ring_def)
  with ring_list_del[OF assms] show ?thesis
    unfolding list_move_def by (intro ring_list_add)
qed

lemma ring_nxt_in_ring: "ring h head xs \<Longrightarrow> a \<in> set (head # xs) \<Longrightarrow> nxt h a \<in> set (head # xs)"
proof -
  assume r: "ring h head xs" and "a \<in> set (head # xs)"
  then obtain i where i: "i \<le> length xs" "a = (head # xs) ! i"
    by (metis in_set_conv_nth length_Cons less_Suc_eq_le)
  with ring_nth_nxt[OF r, of i] have "nxt h a = (xs @ [head]) ! i" by simp
  with i show ?thesis by (cases "i = length xs") (auto simp: nth_append)
qed

lemma dll_prv_nth:
  "dll h p xs q \<Longrightarrow> i \<le> length xs \<Longrightarrow> prv h ((xs @ [q]) ! i) = (p # xs) ! i"
proof (induction xs arbitrary: p i)
  case Nil
  then show ?case by simp
next
  case (Cons x xs)
  then show ?case by (cases i) auto
qed

lemma ring_prv_in_ring: "ring h head xs \<Longrightarrow> a \<in> set (head # xs) \<Longrightarrow> prv h a \<in> set (head # xs)"
proof -
  assume r: "ring h head xs" and "a \<in> set (head # xs)"
  then have "a \<in> set (xs @ [head])" by auto
  then obtain i where i: "i \<le> length xs" "a = (xs @ [head]) ! i"
    by (metis in_set_conv_nth length_append_singleton less_Suc_eq_le)
  with r dll_prv_nth[of h head xs head i] have "prv h a = (head # xs) ! i" by (simp add: ring_def)
  with i show ?thesis by (metis length_Cons less_Suc_eq_le nth_mem)
qed

lemma list_del_outside:
  assumes "ring h head xs" "x \<in> set xs" "a \<notin> set (head # xs)"
  shows "nxt (list_del x h) a = nxt h a" "prv (list_del x h) a = prv h a"
  using ring_nxt_in_ring[OF assms(1), of x] ring_prv_in_ring[OF assms(1), of x] assms(2,3)
  by (auto simp: list_del_nxt list_del_prv)

lemma list_add_outside:
  assumes "ring h head xs" "a \<notin> set (head # xs)" "a \<noteq> x"
  shows "nxt (list_add x head h) a = nxt h a" "prv (list_add x head h) a = prv h a"
  using ring_nxt_in_ring[OF assms(1), of head] assms(2,3)
  by (auto simp: list_add_def Let_def)

lemma list_move_outside:
  assumes "ring h head (as @ x # bs)" "a \<notin> set (head # as @ x # bs)"
  shows "nxt (list_move x head h) a = nxt h a" "prv (list_move x head h) a = prv h a"
proof -
  have "a \<notin> set (head # as @ bs)" "a \<noteq> x" using assms(2) by auto
  then show "nxt (list_move x head h) a = nxt h a" "prv (list_move x head h) a = prv h a"
    using list_add_outside[OF ring_list_del[OF assms(1)], of a x]
      list_del_outside[OF assms(1), of x a] assms(2)
    by (simp_all add: list_move_def)
qed

lemma q_reverse_loop_reverses:
  "ring h head (ds @ rest) \<Longrightarrow>
   \<exists>h'. q_reverse_loop h head (hd (rest @ [head])) (nxt h (hd (rest @ [head]))) = Some h' \<and>
        ring h' head (rev rest @ ds) \<and>
        val h' = val h \<and> str h' = str h \<and> bytes h' = bytes h \<and> alloc h' = alloc h \<and>
        (\<forall>a. a \<notin> set (head # ds @ rest) \<longrightarrow> nxt h' a = nxt h a \<and> prv h' a = prv h a)"
proof (induction rest arbitrary: h ds)
  case Nil
  then show ?case by (subst q_reverse_loop.simps) simp
next
  case (Cons x r)
  let ?h1 = "list_move x head h"
  from Cons.prems have x: "x \<noteq> head" by (auto simp: ring_def)
  from Cons.prems have "dll h x r head" by (auto simp: ring_def dll_append)
  then have safe: "nxt h x = hd (r @ [head])" by (rule dll_nxt_first)
  have r1: "ring ?h1 head ((x # ds) @ r)"
    using ring_list_move[OF Cons.prems] by simp
  from Cons.IH[OF r1] obtain h' where h':
    "q_reverse_loop ?h1 head (hd (r @ [head])) (nxt ?h1 (hd (r @ [head]))) = Some h'"
    "ring h' head (rev r @ x # ds)"
    "val h' = val h" "str h' = str h" "bytes h' = bytes h" "alloc h' = alloc h"
    "\<forall>a. a \<notin> set (head # (x # ds) @ r) \<longrightarrow> nxt h' a = nxt ?h1 a \<and> prv h' a = prv ?h1 a"
    by auto
  have "q_reverse_loop h head x (nxt h x) = Some h'"
    using x h'(1) safe by (subst q_reverse_loop.simps) (simp add: Let_def)
  moreover have "\<forall>a. a \<notin> set (head # ds @ x # r) \<longrightarrow> nxt h' a = nxt h a \<and> prv h' a = prv h a"
    using h'(7) list_move_outside[OF Cons.prems] by auto
  ultimately show ?case using h'(2-6) by simp
qed

lemma q_reverse_reverses:
  assumes "ring h head xs"
  shows "\<exists>h'. q_reverse h head = Some h' \<and> ring h' head (rev xs) \<and>
        val h' = val h \<and> str h' = str h \<and> bytes h' = bytes h \<and> alloc h' = alloc h \<and>
        (\<forall>a. a \<notin> set (head # xs) \<longrightarrow> nxt h' a = nxt h a \<and> prv h' a = prv h a)"
proof (cases xs)
  case Nil
  with assms show ?thesis by (auto simp: q_reverse_def ring_list_empty)
next
  case (Cons y ys)
  with assms have ne: "head \<noteq> NULL" "\<not> list_empty h head"
    by (auto simp: ring_list_empty) (simp add: ring_def)
  from q_reverse_loop_reverses[of h head "[]" xs] assms ring_nxt_head[OF assms] ne
  show ?thesis by (simp add: q_reverse_def)
qed

lemma dll_links_unique:
  "dll h p xs q \<Longrightarrow> dll h' p xs q \<Longrightarrow>
   (\<forall>a \<in> set (p # xs). nxt h' a = nxt h a) \<and> (\<forall>b \<in> set (xs @ [q]). prv h' b = prv h b)"
  by (induction xs arbitrary: p) auto

lemma ring_links_unique:
  assumes "ring h head xs" "ring h' head xs" "a \<in> set (head # xs)"
  shows "nxt h' a = nxt h a" "prv h' a = prv h a"
  using dll_links_unique[of h head xs head h'] assms by (auto simp: ring_def)

section \<open>Deleting elements with an equal successor\<close>

lemma queue_nxt_after:
  assumes "queue h head (ds @ x # rest)"
  shows "nxt h x = hd (rest @ [head])" "x \<noteq> head"
proof -
  from assms have "dll h x rest head" by (auto simp: queue_def dll_append)
  then show "nxt h x = hd (rest @ [head])" by (rule dll_nxt_first)
  from assms show "x \<noteq> head" by (auto simp: queue_def owned_def)
qed

lemma q_delete_dup_loop_drops:
  "queue h head (ds @ x # rest) \<Longrightarrow>
   \<exists>h'. q_delete_dup_loop h head x (nxt h x) = Some h' \<and>
        queue h' head (ds @ drop_before_equal (value_of h) (x # rest)) \<and>
        val h' = val h \<and> str h' = str h \<and> bytes h' = bytes h"
proof (induction rest arbitrary: h x ds)
  case Nil
  from queue_nxt_after[OF Nil] have "q_delete_dup_loop h head x (nxt h x) = Some h"
    by (subst q_delete_dup_loop.simps) simp
  with Nil show ?case by simp
next
  case (Cons y r)
  note n = queue_nxt_after[OF Cons.prems]
  from Cons.prems have y: "y \<noteq> head" by (auto simp: queue_def owned_def)
  show ?case
  proof (cases "strcmp (value_of h x) (value_of h y) = 0")
    case True
    let ?h1 = "q_release_element x (list_del x h)"
    note u = queue_unlink_release[OF Cons.prems]
    have v1: "value_of ?h1 = value_of h" using u(3,4) by (simp add: value_of_def fun_eq_iff)
    have b1: "bytes ?h1 = bytes h" by (simp add: q_release_element_def free_def)
    from Cons.IH[OF u(1)] v1 obtain h' where h':
      "q_delete_dup_loop ?h1 head y (nxt ?h1 y) = Some h'"
      "queue h' head (ds @ drop_before_equal (value_of h) (y # r))"
      "val h' = val ?h1" "str h' = str ?h1" "bytes h' = bytes ?h1"
      by auto
    have "q_delete_dup_loop h head x (nxt h x) = Some h'"
      using n y True h'(1) by (subst q_delete_dup_loop.simps) (simp add: value_of_def)
    with h'(2-5) u(3,4) b1 True show ?thesis by simp
  next
    case False
    from Cons.prems have "queue h head ((ds @ [x]) @ y # r)" by simp
    from Cons.IH[OF this] obtain h' where h':
      "q_delete_dup_loop h head y (nxt h y) = Some h'"
      "queue h' head ((ds @ [x]) @ drop_before_equal (value_of h) (y # r))"
      "val h' = val h" "str h' = str h" "bytes h' = bytes h"
      by auto
    have "q_delete_dup_loop h head x (nxt h x) = Some h'"
      using n y False h'(1) by (subst q_delete_dup_loop.simps) (simp add: value_of_def)
    with h'(2-5) False show ?thesis by simp
  qed
qed

text \<open>
  \<open>q_delete_dup\<close> on a well-formed queue: it returns true and keeps, of every run of
  equal values, the last element.
\<close>

lemma q_delete_dup_drops:
  assumes "queue h head xs"
  shows "\<exists>h'. q_delete_dup h head = Some (True, h') \<and>
           queue h' head (drop_before_equal (value_of h) xs) \<and>
           val h' = val h \<and> str h' = str h \<and> bytes h' = bytes h"
proof (cases xs)
  case Nil
  from assms have ne: "head \<noteq> NULL" by (auto simp: queue_def owned_def)
  from Nil queue_ring[OF assms] have "nxt h head = head" by (simp add: ring_def)
  then have "q_delete_dup_loop h head (nxt h head) (nxt h (nxt h head)) = Some h"
    by (subst q_delete_dup_loop.simps) simp
  with ne Nil assms show ?thesis by (simp add: q_delete_dup_def)
next
  case (Cons x rest)
  from assms have ne: "head \<noteq> NULL" by (auto simp: queue_def owned_def)
  from Cons queue_ring[OF assms] have x: "nxt h head = x" by (simp add: ring_def)
  from q_delete_dup_loop_drops[of h head "[]" x rest] assms Cons x ne
  show ?thesis by (auto simp: q_delete_dup_def)
qed

lemma q_delete_dup_null: "q_delete_dup h NULL = Some (False, h)"
  by (simp add: q_delete_dup_def)

section \<open>NULL-terminated chains\<close>

lemma path_append: "path h p (xs @ ys) q \<longleftrightarrow> (\<exists>r. path h p xs r \<and> path h r ys q)"
  by (induction xs arbitrary: p) auto

lemma path_eqI:
  "path h p xs q \<Longrightarrow> (\<And>a. a \<in> set xs \<Longrightarrow> nxt h' a = nxt h a) \<Longrightarrow> path h' p xs q"
  by (induction xs arbitrary: p) auto

lemma chain_Nil [simp]: "chain h p [] \<longleftrightarrow> p = NULL"
  by (simp add: chain_def)

lemma chain_Cons [simp]:
  "chain h p (x # xs) \<longleftrightarrow> p = x \<and> x \<noteq> NULL \<and> chain h (nxt h x) xs"
  by (auto simp: chain_def)

lemma chain_NULL [simp]: "chain h NULL xs \<longleftrightarrow> xs = []"
  by (cases xs) auto

lemma chain_eqI:
  "chain h p xs \<Longrightarrow> (\<And>a. a \<in> set xs \<Longrightarrow> nxt h' a = nxt h a) \<Longrightarrow> chain h' p xs"
  by (auto simp: chain_def intro: path_eqI)

lemma chain_unique: "chain h p xs \<Longrightarrow> chain h p ys \<Longrightarrow> xs = ys"
proof (induction xs arbitrary: p ys)
  case Nil
  then show ?case by simp
next
  case (Cons x xs)
  then show ?case by (cases ys) auto
qed

lemma chain_append: "chain h p (xs @ ys) \<longleftrightarrow> (\<exists>r. path h p xs r \<and> NULL \<notin> set xs \<and> chain h r ys)"
  by (auto simp: chain_def path_append)

lemma chain_head_notin_tail:
  assumes "chain h (nxt h x) xs"
  shows "x \<notin> set xs"
proof
  assume "x \<in> set xs"
  then obtain as bs where xs: "xs = as @ x # bs" by (auto simp: in_set_conv_decomp)
  with assms have "chain h (nxt h x) bs" by (auto simp: chain_append)
  with assms have "xs = bs" by (rule chain_unique)
  with xs show False by simp
qed

lemma chain_distinct: "chain h p xs \<Longrightarrow> distinct xs"
  by (induction xs arbitrary: p) (auto dest: chain_head_notin_tail)

lemma chain_hd: "chain h p xs \<Longrightarrow> p = hd (xs @ [NULL])"
  by (cases xs) auto

lemma chain_nth:
  "chain h p xs \<Longrightarrow> i < length xs \<Longrightarrow> nxt h (xs ! i) = (xs @ [NULL]) ! Suc i"
proof (induction xs arbitrary: p i)
  case Nil
  then show ?case by simp
next
  case (Cons x xs)
  show ?case
  proof (cases i)
    case 0
    with Cons.prems show ?thesis by (cases xs) auto
  next
    case (Suc j)
    with Cons show ?thesis by auto
  qed
qed

lemma chain_cut:
  assumes "chain h p (as @ s # bs)"
  shows "chain (h\<lparr>nxt := (nxt h)(s := NULL)\<rparr>) p (as @ [s])"
    and "chain (h\<lparr>nxt := (nxt h)(s := NULL)\<rparr>) (nxt h s) bs"
proof -
  let ?h = "h\<lparr>nxt := (nxt h)(s := NULL)\<rparr>"
  from assms have d: "distinct (as @ s # bs)" by (rule chain_distinct)
  from assms obtain r where r: "path h p as r" "NULL \<notin> set as" "chain h r (s # bs)"
    by (auto simp: chain_append)
  from r have "path h p as s" by simp
  then have "path ?h p as s" by (rule path_eqI) (use d in auto)
  with r show "chain ?h p (as @ [s])" by (auto simp: chain_append)
  from r have "chain h (nxt h s) bs" by simp
  then show "chain ?h (nxt h s) bs" by (rule chain_eqI) (use d in auto)
qed

section \<open>Merging two chains\<close>

lemma partial_out_step:
  assumes "partial_out h head ptr out" "distinct (out @ [c])"
    and "store ptr c (h, head) = (h1, head1)"
  shows "partial_out h1 head1 (Next_of c) (out @ [c])"
    and "val h1 = val h" "str h1 = str h" "bytes h1 = bytes h" "alloc h1 = alloc h" "prv h1 = prv h"
    and "\<And>a. a \<notin> set out \<Longrightarrow> nxt h1 a = nxt h a"
proof -
  show "partial_out h1 head1 (Next_of c) (out @ [c])"
  proof (cases "out = []")
    case True
    with assms show ?thesis by (auto simp: partial_out_def store_def)
  next
    case False
    with assms(1) have p: "ptr = Next_of (last out)" "path h head (butlast out) (last out)"
      by (auto simp: partial_out_def)
    with assms(3) have h1: "h1 = h\<lparr>nxt := (nxt h)(last out := c)\<rparr>" "head1 = head"
      by (auto simp: store_def)
    from False have "out = butlast out @ [last out]" by simp
    with assms(2) have "distinct (butlast out @ [last out])" by (metis distinct_append)
    then have l: "last out \<notin> set (butlast out)" by simp
    from p(2) have "path h1 head (butlast out) (last out)"
      unfolding h1 by (rule path_eqI) (use l in auto)
    then have "path h1 head (butlast out @ [last out]) c"
      unfolding h1 by (simp add: path_append)
    with False show ?thesis by (simp add: partial_out_def h1)
  qed
  show "val h1 = val h" "str h1 = str h" "bytes h1 = bytes h" "alloc h1 = alloc h" "prv h1 = prv h"
    using assms(3) by (auto simp: store_def split: loc.splits)
  show "\<And>a. a \<notin> set out \<Longrightarrow> nxt h1 a = nxt h a"
    using assms(1,3) by (auto simp: store_def partial_out_def split: loc.splits if_splits)
qed

lemma partial_out_finish:
  assumes "partial_out h head ptr out" "chain h r rest" "distinct (out @ rest)" "NULL \<notin> set out"
    and "store ptr r (h, head) = (h1, head1)"
  shows "chain h1 head1 (out @ rest)"
    and "val h1 = val h" "str h1 = str h" "bytes h1 = bytes h" "alloc h1 = alloc h" "prv h1 = prv h"
    and "\<And>a. a \<notin> set out \<Longrightarrow> nxt h1 a = nxt h a"
proof -
  show "chain h1 head1 (out @ rest)"
  proof (cases "out = []")
    case True
    with assms show ?thesis by (auto simp: partial_out_def store_def)
  next
    case False
    with assms(1) have p: "ptr = Next_of (last out)" "path h head (butlast out) (last out)"
      by (auto simp: partial_out_def)
    with assms(5) have h1: "h1 = h\<lparr>nxt := (nxt h)(last out := r)\<rparr>" "head1 = head"
      by (auto simp: store_def)
    from False have o: "out = butlast out @ [last out]" by simp
    with assms(3) have "distinct (butlast out @ [last out])" by (metis distinct_append)
    then have "last out \<notin> set (butlast out)" by simp
    moreover from False assms(3) have "last out \<notin> set rest"
      by (metis disjoint_iff distinct_append last_in_set)
    moreover from False assms(4) have "last out \<noteq> NULL"
      by (metis last_in_set)
    ultimately have l: "last out \<notin> set (butlast out)" "last out \<notin> set rest" "last out \<noteq> NULL"
      by auto
    from p(2) have "path h1 head (butlast out) (last out)"
      unfolding h1 by (rule path_eqI) (use l in auto)
    moreover have "chain h1 r rest"
      using assms(2) unfolding h1 by (rule chain_eqI) (use l in auto)
    moreover have "nxt h1 (last out) = r" by (simp add: h1)
    ultimately have "chain h1 head (butlast out @ last out # rest)"
      using assms(4) l(3) by (auto simp: chain_append dest: in_set_butlastD)
    moreover have "butlast out @ last out # rest = out @ rest" using False by simp
    ultimately show ?thesis by (simp add: h1)
  qed
  show "val h1 = val h" "str h1 = str h" "bytes h1 = bytes h" "alloc h1 = alloc h" "prv h1 = prv h"
    using assms(5) by (auto simp: store_def split: loc.splits)
  show "\<And>a. a \<notin> set out \<Longrightarrow> nxt h1 a = nxt h a"
    using assms(1,5) by (auto simp: store_def partial_out_def split: loc.splits if_splits)
qed

lemma mergeTwoLists_loop_merges:
  assumes "chain h l1 xs" "chain h l2 ys" "distinct (out @ xs @ ys)" "NULL \<notin> set out"
    and "partial_out h head ptr out" "value_of h = v"
  shows "\<exists>h1 l1' l2' head1 ptr1 h2 head2.
           mergeTwoLists_loop h l1 l2 head ptr = Some (h1, l1', l2', head1, ptr1) \<and>
           store ptr1 (l1' OR l2') (h1, head1) = (h2, head2) \<and>
           chain h2 head2 (out @ merge_nodes v xs ys) \<and>
           val h2 = val h \<and> str h2 = str h \<and> bytes h2 = bytes h \<and> alloc h2 = alloc h \<and>
           prv h2 = prv h \<and>
           (\<forall>a. a \<notin> set (out @ xs @ ys) \<longrightarrow> nxt h2 a = nxt h a)"
  using assms
proof (induction v xs ys arbitrary: h l1 l2 head ptr out rule: merge_nodes.induct)
  case (1 v ys)
  then have l: "l1 = NULL" by simp
  obtain h2 head2 where s: "store ptr l2 (h, head) = (h2, head2)" by (cases "store ptr l2 (h, head)")
  from partial_out_finish[OF "1.prems"(5) "1.prems"(2) _ "1.prems"(4) s] "1.prems"(3)
  have "chain h2 head2 (out @ ys)" "val h2 = val h" "str h2 = str h" "bytes h2 = bytes h"
    "alloc h2 = alloc h" "prv h2 = prv h" "\<And>a. a \<notin> set out \<Longrightarrow> nxt h2 a = nxt h a"
    by auto
  moreover have "mergeTwoLists_loop h l1 l2 head ptr = Some (h, l1, l2, head, ptr)"
    using l by (subst mergeTwoLists_loop.simps) simp
  ultimately show ?case using l s by simp
next
  case (2 v x xs)
  then have l: "l2 = NULL" by simp
  obtain h2 head2 where s: "store ptr l1 (h, head) = (h2, head2)" by (cases "store ptr l1 (h, head)")
  from partial_out_finish[OF "2.prems"(5) "2.prems"(1) _ "2.prems"(4) s] "2.prems"(3)
  have "chain h2 head2 (out @ x # xs)" "val h2 = val h" "str h2 = str h" "bytes h2 = bytes h"
    "alloc h2 = alloc h" "prv h2 = prv h" "\<And>a. a \<notin> set out \<Longrightarrow> nxt h2 a = nxt h a"
    by auto
  moreover have "mergeTwoLists_loop h l1 l2 head ptr = Some (h, l1, l2, head, ptr)"
    using l by (subst mergeTwoLists_loop.simps) simp
  ultimately show ?case using l s by simp
next
  case (3 v x xs y ys)
  from "3.prems" have l: "l1 = x" "l2 = y" "x \<noteq> NULL" "y \<noteq> NULL"
    and cx: "chain h (nxt h x) xs" and cy: "chain h (nxt h y) ys" by auto
  from "3.prems"(6) have v: "str h (val h x) = v x" "str h (val h y) = v y"
    by (auto simp: value_of_def)
  show ?case
  proof (cases "strcmp (v x) (v y) < 0")
    case True
    obtain h1 head1 where s: "store ptr x (h, head) = (h1, head1)" by (cases "store ptr x (h, head)")
    from "3.prems"(3) have d: "distinct (out @ [x])" by auto
    note st = partial_out_step[OF "3.prems"(5) d s]
    have fr: "nxt h1 a = nxt h a" if "a \<notin> set out" for a using st(7)[OF that] .
    have x: "nxt h1 x = nxt h x" using "3.prems"(3) by (intro fr) auto
    have c1: "chain h1 (nxt h1 x) xs"
      unfolding x using cx by (rule chain_eqI) (use "3.prems"(3) in \<open>auto intro!: fr\<close>)
    have c2: "chain h1 l2 (y # ys)"
      using "3.prems"(2) by (rule chain_eqI) (use "3.prems"(3) in \<open>auto intro!: fr\<close>)
    have v1: "value_of h1 = v" using "3.prems"(6) st(2,3) by (auto simp: value_of_def fun_eq_iff)
    from "3.IH"(1)[OF True c1 c2 _ _ st(1) v1] "3.prems"(3,4) l
    obtain h' l1' l2' head' ptr' h2 head2 where r:
      "mergeTwoLists_loop h1 (nxt h1 x) l2 head1 (Next_of x) = Some (h', l1', l2', head', ptr')"
      "store ptr' (l1' OR l2') (h', head') = (h2, head2)"
      "chain h2 head2 ((out @ [x]) @ merge_nodes v xs (y # ys))"
      "val h2 = val h1" "str h2 = str h1" "bytes h2 = bytes h1" "alloc h2 = alloc h1"
      "prv h2 = prv h1"
      "\<forall>a. a \<notin> set ((out @ [x]) @ xs @ y # ys) \<longrightarrow> nxt h2 a = nxt h1 a"
      by auto
    have "mergeTwoLists_loop h l1 l2 head ptr = Some (h', l1', l2', head', ptr')"
      using l v True s r(1) by (subst mergeTwoLists_loop.simps) (simp add: Let_def)
    moreover have "\<forall>a. a \<notin> set (out @ (x # xs) @ y # ys) \<longrightarrow> nxt h2 a = nxt h a"
      using r(9) fr by auto
    ultimately show ?thesis using r(2-8) st(2-6) True by auto
  next
    case False
    obtain h1 head1 where s: "store ptr y (h, head) = (h1, head1)" by (cases "store ptr y (h, head)")
    from "3.prems"(3) have d: "distinct (out @ [y])" by auto
    note st = partial_out_step[OF "3.prems"(5) d s]
    have fr: "nxt h1 a = nxt h a" if "a \<notin> set out" for a using st(7)[OF that] .
    have y: "nxt h1 y = nxt h y" using "3.prems"(3) by (intro fr) auto
    have c2: "chain h1 (nxt h1 y) ys"
      unfolding y using cy by (rule chain_eqI) (use "3.prems"(3) in \<open>auto intro!: fr\<close>)
    have c1: "chain h1 l1 (x # xs)"
      using "3.prems"(1) by (rule chain_eqI) (use "3.prems"(3) in \<open>auto intro!: fr\<close>)
    have v1: "value_of h1 = v" using "3.prems"(6) st(2,3) by (auto simp: value_of_def fun_eq_iff)
    from "3.IH"(2)[OF False c1 c2 _ _ st(1) v1] "3.prems"(3,4) l
    obtain h' l1' l2' head' ptr' h2 head2 where r:
      "mergeTwoLists_loop h1 l1 (nxt h1 y) head1 (Next_of y) = Some (h', l1', l2', head', ptr')"
      "store ptr' (l1' OR l2') (h', head') = (h2, head2)"
      "chain h2 head2 ((out @ [y]) @ merge_nodes v (x # xs) ys)"
      "val h2 = val h1" "str h2 = str h1" "bytes h2 = bytes h1" "alloc h2 = alloc h1"
      "prv h2 = prv h1"
      "\<forall>a. a \<notin> set ((out @ [y]) @ (x # xs) @ ys) \<longrightarrow> nxt h2 a = nxt h1 a"
      by auto
    have "mergeTwoLists_loop h l1 l2 head ptr = Some (h', l1', l2', head', ptr')"
      using l v False s r(1) by (subst mergeTwoLists_loop.simps) (simp add: Let_def)
    moreover have "\<forall>a. a \<notin> set (out @ (x # xs) @ y # ys) \<longrightarrow> nxt h2 a = nxt h a"
      using r(9) fr by auto
    ultimately show ?thesis using r(2-8) st(2-6) False by auto
  qed
qed

lemma mergeTwoLists_merges:
  assumes "chain h l1 xs" "chain h l2 ys" "distinct (xs @ ys)"
  shows "\<exists>r h'. mergeTwoLists h l1 l2 = Some (r, h') \<and>
           chain h' r (merge_nodes (value_of h) xs ys) \<and>
           val h' = val h \<and> str h' = str h \<and> bytes h' = bytes h \<and> alloc h' = alloc h \<and>
           prv h' = prv h \<and>
           (\<forall>a. a \<notin> set (xs @ ys) \<longrightarrow> nxt h' a = nxt h a)"
proof -
  have p: "partial_out h NULL Local_head []" by (simp add: partial_out_def)
  from mergeTwoLists_loop_merges[OF assms(1,2) _ _ p refl, of ] assms(3)
  obtain h1 l1' l2' head1 ptr1 h2 head2 where r:
    "mergeTwoLists_loop h l1 l2 NULL Local_head = Some (h1, l1', l2', head1, ptr1)"
    "store ptr1 (l1' OR l2') (h1, head1) = (h2, head2)"
    "chain h2 head2 (merge_nodes (value_of h) xs ys)"
    "val h2 = val h" "str h2 = str h" "bytes h2 = bytes h" "alloc h2 = alloc h"
    "prv h2 = prv h" "\<forall>a. a \<notin> set (xs @ ys) \<longrightarrow> nxt h2 a = nxt h a"
    by auto
  then show ?thesis by (simp add: mergeTwoLists_def)
qed

section \<open>The recursive merge sort\<close>

lemma chain_nth_not_NULL:
  assumes "chain h p xs" "i \<le> length xs"
  shows "(xs @ [NULL]) ! i \<noteq> NULL \<longleftrightarrow> i < length xs"
proof (cases "i < length xs")
  case True
  then have "(xs @ [NULL]) ! i \<in> set xs" by (simp add: nth_append)
  with assms True show ?thesis by (auto simp: chain_def)
next
  case False
  with assms show ?thesis by (simp add: nth_append)
qed

lemma mergesort_loop_finds_split:
  assumes c: "chain h p xs"
  shows "2 * k + 1 \<le> length xs \<Longrightarrow>
         mergesort_loop h ((xs @ [NULL]) ! (2 * k + 1)) (xs ! k) =
           Some (xs ! ((length xs - 1) div 2))"
proof (induction "length xs - 2 * k" arbitrary: k rule: less_induct)
  case less
  let ?n = "length xs"
  let ?fast = "(xs @ [NULL]) ! (2 * k + 1)"
  have f1: "?fast \<noteq> NULL \<longleftrightarrow> 2 * k + 1 < ?n"
    using chain_nth_not_NULL[OF c, of "2 * k + 1"] less.prems by simp
  show ?case
  proof (cases "2 * k + 2 < ?n")
    case True
    then have fast: "?fast = xs ! (2 * k + 1)" by (simp add: nth_append)
    have n1: "nxt h ?fast = (xs @ [NULL]) ! (2 * k + 2)"
      unfolding fast using True chain_nth[OF c, of "2 * k + 1"] by simp
    then have n2: "nxt h ?fast = xs ! (2 * k + 2)" using True by (simp add: nth_append)
    have n3: "nxt h (nxt h ?fast) = (xs @ [NULL]) ! (2 * (k + 1) + 1)"
      unfolding n2 using True chain_nth[OF c, of "2 * k + 2"] by simp
    have s1: "nxt h (xs ! k) = xs ! (k + 1)"
      using True chain_nth[OF c, of k] by (simp add: nth_append)
    have cnd: "nxt h ?fast \<noteq> NULL"
      unfolding n1 using chain_nth_not_NULL[OF c, of "2 * k + 2"] True by simp
    have "mergesort_loop h (nxt h (nxt h ?fast)) (nxt h (xs ! k)) =
            Some (xs ! ((?n - 1) div 2))"
      unfolding n3 s1 using True by (intro less.hyps) auto
    with cnd f1 True show ?thesis
      by (subst mergesort_loop.simps) simp
  next
    case False
    have "\<not> (?fast \<noteq> NULL \<and> nxt h ?fast \<noteq> NULL)"
    proof (cases "2 * k + 1 < ?n")
      case True
      with False have k: "2 * k + 2 = ?n" by simp
      from True have fast: "?fast = xs ! (2 * k + 1)" by (simp add: nth_append)
      have "nxt h ?fast = (xs @ [NULL]) ! (2 * k + 2)"
        unfolding fast using True chain_nth[OF c, of "2 * k + 1"] by simp
      with k show ?thesis by (simp add: nth_append)
    next
      case False
      with f1 show ?thesis by simp
    qed
    moreover from False less.prems have "(?n - 1) div 2 = k" by linarith
    ultimately show ?thesis
      by (subst mergesort_loop.simps) auto
  qed
qed

text \<open>The split of a chain of two or more nodes.\<close>

lemma mergesort_split:
  assumes c: "chain h head xs" and n: "2 \<le> length xs"
  defines "m \<equiv> (length xs + 1) div 2"
  shows "\<exists>slow. mergesort_loop h (nxt h head) head = Some slow \<and>
           chain (h\<lparr>nxt := (nxt h)(slow := NULL)\<rparr>) head (take m xs) \<and>
           chain (h\<lparr>nxt := (nxt h)(slow := NULL)\<rparr>) (nxt h slow) (drop m xs) \<and>
           slow \<in> set xs \<and> 0 < m \<and> m < length xs"
proof -
  let ?s = "xs ! ((length xs - 1) div 2)"
  from n have m: "0 < m" "m < length xs" "(length xs - 1) div 2 = m - 1"
    by (auto simp: m_def)
  from c n have hd: "head = xs ! 0" by (cases xs) auto
  from n have "0 < length xs" by (cases xs) auto
  from chain_nth[OF c this] hd have "nxt h head = (xs @ [NULL]) ! (2 * 0 + 1)" by simp
  with mergesort_loop_finds_split[OF c, of 0] n hd
  have loop: "mergesort_loop h (nxt h head) head = Some ?s" by simp
  have xs: "xs = take (m - 1) xs @ ?s # drop m xs"
    using m id_take_nth_drop[of "m - 1" xs] by simp
  have t: "take (m - 1) xs @ [?s] = take m xs"
    using m take_Suc_conv_app_nth[of "m - 1" xs] by simp
  from c xs have c': "chain h head (take (m - 1) xs @ ?s # drop m xs)" by simp
  from chain_cut[OF c'] t
  have "chain (h\<lparr>nxt := (nxt h)(?s := NULL)\<rparr>) head (take m xs)"
    "chain (h\<lparr>nxt := (nxt h)(?s := NULL)\<rparr>) (nxt h ?s) (drop m xs)"
    by simp_all
  moreover have "?s \<in> set xs" using m by simp
  ultimately show ?thesis using loop m by simp
qed

lemma mset_merge_nodes: "mset (merge_nodes v xs ys) = mset xs + mset ys"
  by (induction v xs ys rule: merge_nodes.induct) auto

lemma mset_msort_nodes: "mset (msort_nodes v xs) = mset xs"
proof (induction v xs rule: msort_nodes.induct)
  case (1 v xs)
  show ?case
  proof (cases "length xs \<le> 1")
    case True
    then show ?thesis by (simp add: msort_nodes.simps)
  next
    case False
    have "mset (msort_nodes v xs) =
            mset (take ((length xs + 1) div 2) xs) + mset (drop ((length xs + 1) div 2) xs)"
      using False "1.IH" by (subst msort_nodes.simps) (simp add: mset_merge_nodes)
    also have "\<dots> = mset xs"
      by (metis append_take_drop_id mset_append)
    finally show ?thesis .
  qed
qed

lemma set_msort_nodes [simp]: "set (msort_nodes v xs) = set xs"
  using mset_msort_nodes[of v xs] by (rule mset_eq_setD)

lemma distinct_msort_nodes [simp]: "distinct (msort_nodes v xs) = distinct xs"
  using mset_msort_nodes[of v xs] by (rule mset_eq_imp_distinct_iff)

lemma mergesort_sorts:
  "chain h head xs \<Longrightarrow>
   \<exists>r h'. mergesort h head = Some (r, h') \<and>
     chain h' r (msort_nodes (value_of h) xs) \<and>
     val h' = val h \<and> str h' = str h \<and> bytes h' = bytes h \<and> alloc h' = alloc h \<and>
     prv h' = prv h \<and> (\<forall>a. a \<notin> set xs \<longrightarrow> nxt h' a = nxt h a)"
proof (induction "length xs" arbitrary: h head xs rule: less_induct)
  case less
  show ?case
  proof (cases "length xs \<le> 1")
    case True
    then have "xs = [] \<or> (\<exists>x. xs = [x])" by (cases xs) auto
    with less.prems have "head = NULL \<or> nxt h head = NULL" by auto
    then have "mergesort h head = Some (head, h)" by (subst mergesort.simps) simp
    with True less.prems show ?thesis by (simp add: msort_nodes.simps)
  next
    case False
    let ?m = "(length xs + 1) div 2"
    let ?v = "value_of h"
    from False have n: "2 \<le> length xs" by simp
    then obtain x y zs where xs: "xs = x # y # zs" by (cases xs; cases "tl xs") auto
    with less.prems have ne: "head \<noteq> NULL" "nxt h head \<noteq> NULL" by auto
    from less.prems have d: "distinct xs" by (rule chain_distinct)
    from mergesort_split[OF less.prems n] obtain slow where s:
      "mergesort_loop h (nxt h head) head = Some slow"
      "chain (h\<lparr>nxt := (nxt h)(slow := NULL)\<rparr>) head (take ?m xs)"
      "chain (h\<lparr>nxt := (nxt h)(slow := NULL)\<rparr>) (nxt h slow) (drop ?m xs)"
      "slow \<in> set xs" "0 < ?m" "?m < length xs"
      by auto
    let ?h1 = "h\<lparr>nxt := (nxt h)(slow := NULL)\<rparr>"
    have v1: "value_of ?h1 = ?v" by (simp add: value_of_def fun_eq_iff)
    have dj: "set (take ?m xs) \<inter> set (drop ?m xs) = {}"
      using d by (metis append_take_drop_id distinct_append)
    have sub: "set (take ?m xs) \<subseteq> set xs" "set (drop ?m xs) \<subseteq> set xs"
      by (auto dest: in_set_takeD in_set_dropD)
    have "length (take ?m xs) < length xs" using s(6) by simp
    from less.hyps[OF this s(2)] v1 obtain left h2 where l:
      "mergesort ?h1 head = Some (left, h2)"
      "chain h2 left (msort_nodes ?v (take ?m xs))"
      "val h2 = val h" "str h2 = str h" "bytes h2 = bytes h" "alloc h2 = alloc h" "prv h2 = prv h"
      "\<forall>a. a \<notin> set (take ?m xs) \<longrightarrow> nxt h2 a = nxt ?h1 a"
      by auto
    have v2: "value_of h2 = ?v" using l(3,4) by (simp add: value_of_def fun_eq_iff)
    have c2: "chain h2 (nxt h slow) (drop ?m xs)"
      using s(3) by (rule chain_eqI) (use l(8) dj in auto)
    have "length (drop ?m xs) < length xs" using s(5) n by simp
    from less.hyps[OF this c2] v2 obtain right h3 where r:
      "mergesort h2 (nxt h slow) = Some (right, h3)"
      "chain h3 right (msort_nodes ?v (drop ?m xs))"
      "val h3 = val h2" "str h3 = str h2" "bytes h3 = bytes h2" "alloc h3 = alloc h2"
      "prv h3 = prv h2"
      "\<forall>a. a \<notin> set (drop ?m xs) \<longrightarrow> nxt h3 a = nxt h2 a"
      by auto
    have v3: "value_of h3 = ?v" using l(3,4) r(3,4) by (simp add: value_of_def fun_eq_iff)
    have c3: "chain h3 left (msort_nodes ?v (take ?m xs))"
      using l(2) by (rule chain_eqI) (use r(8) dj in auto)
    have d3: "distinct (msort_nodes ?v (take ?m xs) @ msort_nodes ?v (drop ?m xs))"
      using d dj by (metis append_take_drop_id distinct_append distinct_msort_nodes set_msort_nodes)
    from mergeTwoLists_merges[OF c3 r(2) d3] v3 obtain res h4 where m:
      "mergeTwoLists h3 left right = Some (res, h4)"
      "chain h4 res (merge_nodes ?v (msort_nodes ?v (take ?m xs)) (msort_nodes ?v (drop ?m xs)))"
      "val h4 = val h3" "str h4 = str h3" "bytes h4 = bytes h3" "alloc h4 = alloc h3"
      "prv h4 = prv h3"
      "\<forall>a. a \<notin> set (msort_nodes ?v (take ?m xs) @ msort_nodes ?v (drop ?m xs)) \<longrightarrow>
           nxt h4 a = nxt h3 a"
      by auto
    have ms: "msort_nodes ?v xs =
                merge_nodes ?v (msort_nodes ?v (take ?m xs)) (msort_nodes ?v (drop ?m xs))"
      using False by (subst msort_nodes.simps) simp
    have res: "mergesort h head = Some (res, h4)"
      using ne s(1) l(1) r(1) m(1) by (subst mergesort.simps) (simp add: Let_def)
    have fr: "\<forall>a. a \<notin> set xs \<longrightarrow> nxt h4 a = nxt h a"
    proof (intro allI impI)
      fix a assume a: "a \<notin> set xs"
      with sub s(4) have "a \<notin> set (take ?m xs)" "a \<notin> set (drop ?m xs)" "a \<noteq> slow" by auto
      with m(8) r(8) l(8) show "nxt h4 a = nxt h a" by simp
    qed
    show ?thesis using res m(2-7) r(3-7) l(3-7) fr ms by simp
  qed
qed

section \<open>The order of \<open>strcmp\<close> and sorted results\<close>

lemma of_char_pos: "c \<noteq> CHR 0x00 \<Longrightarrow> 0 < (of_char c :: nat)"
proof -
  assume "c \<noteq> CHR 0x00"
  then have "(of_char c :: nat) \<noteq> of_char (CHR 0x00)" by (simp only: of_char_eq_iff) simp
  then show ?thesis by simp
qed

lemma bytecmp_swap: "bytecmp b a = - bytecmp a b"
  by (induction a b rule: bytecmp.induct) auto

lemma bytecmp_refl [simp]: "bytecmp a a = 0"
  by (induction a) auto

lemma bytecmp_trans:
  "CHR 0x00 \<notin> set a \<Longrightarrow> CHR 0x00 \<notin> set b \<Longrightarrow> CHR 0x00 \<notin> set c \<Longrightarrow>
   bytecmp a b \<le> 0 \<Longrightarrow> bytecmp b c \<le> 0 \<Longrightarrow> bytecmp a c \<le> 0"
proof (induction a arbitrary: b c)
  case Nil
  then show ?case by (cases c) auto
next
  case (Cons x a)
  show ?case
  proof (cases b)
    case Nil
    with Cons.prems of_char_pos[of x] show ?thesis by auto
  next
    case b: (Cons y b')
    show ?thesis
    proof (cases c)
      case Nil
      with Cons.prems b of_char_pos[of y] show ?thesis by auto
    next
      case c: (Cons z c')
      with Cons.prems b Cons.IH[of b' c'] show ?thesis
        by (auto split: if_splits)
    qed
  qed
qed

lemma cstr_no_NUL: "CHR 0x00 \<notin> set (cstr s)"
  by (auto simp: cstr_def dest: set_takeWhileD)

lemma strcmp_swap: "strcmp b a = - strcmp a b"
  by (simp add: strcmp_def bytecmp_swap[of "cstr b"])

lemma strcmp_trans: "strcmp a b \<le> 0 \<Longrightarrow> strcmp b c \<le> 0 \<Longrightarrow> strcmp a c \<le> 0"
  unfolding strcmp_def by (rule bytecmp_trans[OF cstr_no_NUL cstr_no_NUL cstr_no_NUL])

lemma strcmp_total: "\<not> strcmp a b < 0 \<Longrightarrow> strcmp b a \<le> 0"
  using strcmp_swap[of b a] by simp

lemma strcmp_less_le: "strcmp a b < 0 \<Longrightarrow> strcmp a b \<le> 0"
  by simp

text \<open>Ascending order of the values of a list of nodes.\<close>

lemma set_merge_nodes [simp]: "set (merge_nodes v xs ys) = set xs \<union> set ys"
  using mset_merge_nodes[of v xs ys] by (metis set_mset_mset set_mset_union)

lemma sorted_merge_nodes:
  "sorted_wrt (\<lambda>a b. strcmp (v a) (v b) \<le> 0) xs \<Longrightarrow>
   sorted_wrt (\<lambda>a b. strcmp (v a) (v b) \<le> 0) ys \<Longrightarrow>
   sorted_wrt (\<lambda>a b. strcmp (v a) (v b) \<le> 0) (merge_nodes v xs ys)"
proof (induction v xs ys rule: merge_nodes.induct)
  case (3 v x xs y ys)
  show ?case
  proof (cases "strcmp (v x) (v y) < 0")
    case True
    have "strcmp (v x) (v z) \<le> 0" if "z \<in> set ys" for z
      using "3.prems"(2) that True strcmp_trans[of "v x" "v y" "v z"] by auto
    with True "3.prems" "3.IH"(1) show ?thesis by auto
  next
    case False
    then have yx: "strcmp (v y) (v x) \<le> 0" by (rule strcmp_total)
    have "strcmp (v y) (v z) \<le> 0" if "z \<in> set xs" for z
      using "3.prems"(1) that yx strcmp_trans[of "v y" "v x" "v z"] by auto
    with False yx "3.prems" "3.IH"(2) show ?thesis by auto
  qed
qed simp_all

lemma sorted_msort_nodes: "sorted_wrt (\<lambda>a b. strcmp (v a) (v b) \<le> 0) (msort_nodes v xs)"
proof (induction v xs rule: msort_nodes.induct)
  case (1 v xs)
  show ?case
  proof (cases "length xs \<le> 1")
    case True
    then have "xs = [] \<or> (\<exists>x. xs = [x])" by (cases xs) auto
    moreover from True have "msort_nodes v xs = xs" by (subst msort_nodes.simps) simp
    ultimately show ?thesis by auto
  next
    case False
    with "1.IH" show ?thesis
      by (subst msort_nodes.simps) (simp add: sorted_merge_nodes)
  qed
qed

section \<open>Sorting the queue\<close>

lemma q_sort_loop_walks:
  "chain h l zs \<Longrightarrow> zs \<noteq> [] \<Longrightarrow>
   \<exists>h'. q_sort_loop h l p = Some (h', last zs) \<and> nxt h' = nxt h \<and> val h' = val h \<and>
     str h' = str h \<and> bytes h' = bytes h \<and> alloc h' = alloc h \<and>
     (\<forall>a. a \<notin> set (butlast zs) \<longrightarrow> prv h' a = prv h a)"
proof (induction zs arbitrary: h l p)
  case Nil
  then show ?case by simp
next
  case (Cons z zs)
  show ?case
  proof (cases zs)
    case Nil
    with Cons.prems have "nxt h l = NULL" "l = z" by auto
    then have "q_sort_loop h l p = Some (h, z)" by (subst q_sort_loop.simps) simp
    with Nil show ?thesis by simp
  next
    case (Cons z' r)
    let ?h1 = "h\<lparr>prv := (prv h)(l := p)\<rparr>"
    from Cons Cons.prems have l: "l = z" "nxt h l = z'" "z' \<noteq> NULL" and c: "chain h z' zs"
      by auto
    have "chain ?h1 (nxt ?h1 l) zs" using c l by (auto intro: chain_eqI)
    from Cons.IH[OF this, of l] Cons obtain h' where h':
      "q_sort_loop ?h1 (nxt ?h1 l) l = Some (h', last zs)" "nxt h' = nxt h" "val h' = val h"
      "str h' = str h" "bytes h' = bytes h" "alloc h' = alloc h"
      "\<forall>a. a \<notin> set (butlast zs) \<longrightarrow> prv h' a = prv ?h1 a"
      by auto
    have "q_sort_loop h l p = Some (h', last zs)"
      using l h'(1) by (subst q_sort_loop.simps) (simp add: Let_def)
    with h'(2-7) l Cons show ?thesis by auto
  qed
qed

lemma path_cut_last:
  assumes "path h p (as @ [s]) q" "distinct (as @ [s])" "NULL \<notin> set (as @ [s])"
  shows "chain (h\<lparr>nxt := (nxt h)(s := NULL)\<rparr>) p (as @ [s])"
proof -
  from assms(1) have "path h p as s" by (auto simp: path_append)
  then have "path (h\<lparr>nxt := (nxt h)(s := NULL)\<rparr>) p as s"
    by (rule path_eqI) (use assms(2) in auto)
  with assms(3) show ?thesis by (auto simp: chain_append)
qed

lemma chain_close_last:
  assumes "chain h p (as @ [s])"
  shows "path (h\<lparr>nxt := (nxt h)(s := q)\<rparr>) p (as @ [s]) q"
proof -
  from assms have d: "distinct (as @ [s])" by (rule chain_distinct)
  from assms have "path h p as s" by (auto simp: chain_append)
  then have "path (h\<lparr>nxt := (nxt h)(s := q)\<rparr>) p as s"
    by (rule path_eqI) (use d in auto)
  then show ?thesis by (auto simp: path_append)
qed

lemma ring_forward: "ring h head xs \<Longrightarrow> forward h head xs"
  by (auto simp: ring_def forward_def dest: dll_path)

lemma ring_singular:
  assumes "ring h head xs"
  shows "list_is_singular h head \<longleftrightarrow> length xs = 1"
proof (cases xs rule: rev_cases)
  case Nil
  with assms show ?thesis by (simp add: list_is_singular_def ring_list_empty)
next
  case (snoc ys y)
  with ring_list_empty[OF assms] have e: "\<not> list_empty h head" by simp
  from snoc ring_nxt_head[OF assms] ring_prv_head[OF assms] assms show ?thesis
    by (cases ys) (auto simp: list_is_singular_def e ring_def)
qed

lemma q_sort_no_effect:
  assumes "head = NULL \<or> (ring h head xs \<and> length xs \<le> 1)"
  shows "q_sort h head = Some h"
proof (cases "head = NULL")
  case True
  then show ?thesis by (simp add: q_sort_def)
next
  case False
  with assms have r: "ring h head xs" and "length xs \<le> 1" by auto
  then have "xs = [] \<or> length xs = 1" by (cases xs) auto
  with r have "list_empty h head \<or> list_is_singular h head"
    by (auto simp: ring_list_empty ring_singular)
  then show ?thesis by (auto simp: q_sort_def)
qed

lemma q_sort_sorts:
  assumes r: "ring h head xs" and n: "2 \<le> length xs"
  shows "\<exists>h'. q_sort h head = Some h' \<and> forward h' head (msort_nodes (value_of h) xs) \<and>
     prv h' head = last (msort_nodes (value_of h) xs) \<and>
     prv h' (last (msort_nodes (value_of h) xs)) = prv h (last (msort_nodes (value_of h) xs)) \<and>
     val h' = val h \<and> str h' = str h \<and> bytes h' = bytes h \<and> alloc h' = alloc h"
proof -
  let ?ys = "msort_nodes (value_of h) xs"
  from r have ne: "head \<noteq> NULL" "NULL \<notin> set xs" "distinct (head # xs)" by (auto simp: ring_def)
  from n have xne: "xs \<noteq> []" by auto
  from r n have c0: "\<not> ((head = NULL \<or> list_empty h head) \<or> list_is_singular h head)"
    using ne xne by (auto simp: ring_list_empty ring_singular)
  let ?h1 = "h\<lparr>nxt := (nxt h)(prv h head := NULL)\<rparr>"
  have pl: "prv h head = last xs" using ring_prv_head[OF r] xne by simp
  have nh: "nxt h head = hd xs" using ring_nxt_head[OF r] xne by simp
  have lx: "last xs \<noteq> head" using ne xne by (metis distinct.simps(2) last_in_set)
  have n1: "nxt ?h1 head = hd xs" using pl nh lx by simp
  from ring_forward[OF r] have p: "path h (hd xs) (butlast xs @ [last xs]) head"
    using xne nh by (simp add: forward_def)
  have "chain (h\<lparr>nxt := (nxt h)(last xs := NULL)\<rparr>) (hd xs) (butlast xs @ [last xs])"
    by (rule path_cut_last[OF p]) (use ne xne in auto)
  then have c1: "chain ?h1 (nxt ?h1 head) xs"
    unfolding n1 unfolding pl using xne by simp
  have v1: "value_of ?h1 = value_of h" by (simp add: value_of_def fun_eq_iff)
  from mergesort_sorts[OF c1] v1 obtain res h2 where m:
    "mergesort ?h1 (nxt ?h1 head) = Some (res, h2)" "chain h2 res ?ys"
    "val h2 = val h" "str h2 = str h" "bytes h2 = bytes h" "alloc h2 = alloc h" "prv h2 = prv h"
    "\<forall>a. a \<notin> set xs \<longrightarrow> nxt h2 a = nxt ?h1 a"
    by auto
  let ?h3 = "h2\<lparr>nxt := (nxt h2)(head := res)\<rparr>"
  have yne: "?ys \<noteq> []" using xne by (metis set_msort_nodes set_empty)
  have hy: "head \<notin> set ?ys" "NULL \<notin> set ?ys" "distinct ?ys" using ne by auto
  have c3: "chain ?h3 (nxt ?h3 head) ?ys"
    using m(2) hy by (auto intro: chain_eqI)
  from q_sort_loop_walks[OF c3 yne, of head] obtain h4 where w:
    "q_sort_loop ?h3 (nxt ?h3 head) head = Some (h4, last ?ys)" "nxt h4 = nxt ?h3"
    "val h4 = val h" "str h4 = str h" "bytes h4 = bytes h" "alloc h4 = alloc h"
    "\<forall>a. a \<notin> set (butlast ?ys) \<longrightarrow> prv h4 a = prv h a"
    using m(3-7) by auto
  let ?h5 = "h4\<lparr>nxt := (nxt h4)(last ?ys := head)\<rparr>"
  let ?h6 = "?h5\<lparr>prv := (prv ?h5)(head := last ?ys)\<rparr>"
  have res: "q_sort h head = Some ?h6"
    using c0 m(1) w(1) by (simp add: q_sort_def Let_def)
  have ly: "last ?ys \<noteq> head" using hy yne by (metis last_in_set)
  have c4: "chain h4 res (butlast ?ys @ [last ?ys])"
    using c3 w(2) yne by (auto intro: chain_eqI)
  have "path ?h5 res (butlast ?ys @ [last ?ys]) head" by (rule chain_close_last[OF c4])
  then have "path ?h6 res ?ys head" using yne by (auto intro: path_eqI)
  moreover have "nxt ?h6 head = res" using ly w(2) by simp
  ultimately have f: "forward ?h6 head ?ys" using ne hy by (simp add: forward_def)
  from yne have "?ys = butlast ?ys @ [last ?ys]" by simp
  with hy(3) have "distinct (butlast ?ys @ [last ?ys])" by metis
  then have "last ?ys \<notin> set (butlast ?ys)" by simp
  with w(7) ly have "prv ?h6 (last ?ys) = prv h (last ?ys)" by simp
  with f res w(3-6) show ?thesis by simp
qed

lemma msort_nodes_two:
  "msort_nodes v [a, b] = (if strcmp (v a) (v b) < 0 then [a, b] else [b, a])"
  by (subst msort_nodes.simps, subst msort_nodes.simps, subst msort_nodes.simps) simp

text \<open>
  What the final pass of \<open>q_sort\<close> leaves behind: the last node of the sorted order still
  has the \<open>prev\<close> pointer it had before the call.
\<close>

lemma q_sort_last_prev_stale:
  assumes "ring h head xs" "2 \<le> length xs"
  shows "prv (the (q_sort h head)) (last (msort_nodes (value_of h) xs)) =
         prv h (last (msort_nodes (value_of h) xs))"
  using q_sort_sorts[OF assms] by auto


section \<open>Results\<close>

subsection \<open>Deleting duplicates\<close>

text \<open>
  Claim C1. On the sorted queue \<open>a, a, b, c, c\<close> (element nodes 2, 4, 6, 8, 10 behind the
  sentinel 1) the specification asks \<open>q_delete_dup\<close> to leave only \<open>b\<close>. The code
  returns true and leaves the ring of the nodes 4, 6, 10 with the values \<open>a, b, c\<close>: of
  every run of equal values the last element stays.
\<close>

theorem q_delete_dup_keeps_one_copy:
  "ring queue_aabcc 1 [2, 4, 6, 8, 10] \<and>
   values_of queue_aabcc [2, 4, 6, 8, 10] = [''a'', ''a'', ''b'', ''c'', ''c''] \<and>
   q_delete_dup queue_aabcc 1 \<noteq> None \<and>
   fst (the (q_delete_dup queue_aabcc 1)) = True \<and>
   ring (snd (the (q_delete_dup queue_aabcc 1))) 1 [4, 6, 10] \<and>
   values_of (snd (the (q_delete_dup queue_aabcc 1))) [4, 6, 10] = [''a'', ''b'', ''c'']"
  by code_simp

subsection \<open>The ring after sorting\<close>

text \<open>
  Claim C2. On the queue \<open>b, a\<close> (nodes 2 and 4 behind the sentinel 1) \<open>q_sort\<close> returns
  with the forward order 4, 2, but the last node 2 keeps the \<open>prev\<close> pointer it had before
  the call (the sentinel): the final pass stops before the last node. So
  \<open>n.prev.next == n\<close> fails at node 2 and \<open>n.next.prev == n\<close> fails at node 4.
\<close>

theorem q_sort_breaks_ring:
  "ring queue_ba 1 [2, 4] \<and>
   q_sort queue_ba 1 \<noteq> None \<and>
   forward (the (q_sort queue_ba 1)) 1 [4, 2] \<and>
   prv (the (q_sort queue_ba 1)) 2 = 1 \<and>
   nxt (the (q_sort queue_ba 1)) 1 = 4 \<and>
   \<not> links_ok (the (q_sort queue_ba 1)) 2 \<and>
   \<not> links_ok (the (q_sort queue_ba 1)) 4"
  by code_simp

subsection \<open>Stability of the sort\<close>

text \<open>
  Claim C3, as stated, fails: on the queue \<open>a, a\<close> (nodes 2 and 4, equal values) the
  sorted forward order is 4, 2, so the two equal elements have changed places.
\<close>

theorem q_sort_not_stable:
  "ring queue_aa 1 [2, 4] \<and>
   values_of queue_aa [2, 4] = [''a'', ''a''] \<and>
   q_sort queue_aa 1 \<noteq> None \<and>
   forward (the (q_sort queue_aa 1)) 1 [4, 2]"
  by code_simp

text \<open>
  Claim C3, as the code has it. In the merge of two chains whose head values compare
  equal, the node taken first is the head of the second chain (the head of the first chain
  is taken only when its value compares less), and the merged chain continues with the
  merge of the whole first chain and the rest of the second. Hence \<open>q_sort\<close> is not
  stable: a queue of two elements with equal values comes back with the two elements
  exchanged.
\<close>

theorem merge_takes_second_on_tie:
  "(chain h l1 (x # xs) \<and> chain h l2 (y # ys) \<and> distinct ((x # xs) @ y # ys) \<and>
    strcmp (value_of h x) (value_of h y) = 0 \<longrightarrow>
      mergeTwoLists h l1 l2 \<noteq> None \<and>
      fst (the (mergeTwoLists h l1 l2)) = y \<and>
      chain (snd (the (mergeTwoLists h l1 l2))) y
        (y # merge_nodes (value_of h) (x # xs) ys)) \<and>
   (ring h head [a, b] \<and> strcmp (value_of h a) (value_of h b) = 0 \<longrightarrow>
      q_sort h head \<noteq> None \<and> forward (the (q_sort h head)) head [b, a])"
proof (intro conjI impI)
  assume a: "chain h l1 (x # xs) \<and> chain h l2 (y # ys) \<and> distinct ((x # xs) @ y # ys) \<and>
    strcmp (value_of h x) (value_of h y) = 0"
  then have c: "chain h l1 (x # xs)" "chain h l2 (y # ys)" "distinct ((x # xs) @ y # ys)"
    and t: "strcmp (value_of h x) (value_of h y) = 0" by auto
  from mergeTwoLists_merges[OF c] t obtain r h' where r:
    "mergeTwoLists h l1 l2 = Some (r, h')"
    "chain h' r (y # merge_nodes (value_of h) (x # xs) ys)"
    by auto
  then have "r = y" by simp
  with r show "mergeTwoLists h l1 l2 \<noteq> None" "fst (the (mergeTwoLists h l1 l2)) = y"
    "chain (snd (the (mergeTwoLists h l1 l2))) y (y # merge_nodes (value_of h) (x # xs) ys)"
    by simp_all
next
  assume "ring h head [a, b] \<and> strcmp (value_of h a) (value_of h b) = 0"
  then have r: "ring h head [a, b]" and t: "strcmp (value_of h a) (value_of h b) = 0" by auto
  from q_sort_sorts[OF r] t obtain h' where
    "q_sort h head = Some h'" "forward h' head [b, a]"
    by (auto simp: msort_nodes_two)
  then show "q_sort h head \<noteq> None" "forward (the (q_sort h head)) head [b, a]" by simp_all
qed

theorem merge_takes_second_on_tie_witness:
  "chain chains_a_a 2 [2] \<and> chain chains_a_a 4 [4] \<and>
   strcmp (value_of chains_a_a 2) (value_of chains_a_a 4) = 0 \<and>
   mergeTwoLists chains_a_a 2 4 \<noteq> None \<and>
   fst (the (mergeTwoLists chains_a_a 2 4)) = 4 \<and>
   chain (snd (the (mergeTwoLists chains_a_a 2 4))) 4 [4, 2] \<and>
   ring queue_aa 1 [2, 4] \<and>
   strcmp (value_of queue_aa 2) (value_of queue_aa 4) = 0 \<and>
   q_sort queue_aa 1 \<noteq> None \<and>
   forward (the (q_sort queue_aa 1)) 1 [4, 2]"
proof -
  have c: "chain chains_a_a 2 [2]" "chain chains_a_a 4 [4]"
    "strcmp (value_of chains_a_a 2) (value_of chains_a_a 4) = 0"
    "ring queue_aa 1 [2, 4]" "strcmp (value_of queue_aa 2) (value_of queue_aa 4) = 0"
    by code_simp+
  show ?thesis
    using c merge_takes_second_on_tie[of chains_a_a 2 2 "[]" 4 4 "[]" 1 2 4]
      merge_takes_second_on_tie[of queue_aa 2 2 "[]" 4 4 "[]" 1 2 4]
    by simp
qed

subsection \<open>The output buffer of the remove operations\<close>

text \<open>
  Claim C5. With a non-null buffer at address 100 and capacity 0, \<open>q_remove_head\<close> and
  \<open>q_remove_tail\<close> store a NUL byte at \<open>sp + (bufsize - 1)\<close>, which is address 99: one
  byte before the buffer.
\<close>

theorem q_remove_writes_outside_buffer:
  "ring queue_abc 1 [2] \<and>
   bytes queue_abc 99 = CHR ''x'' \<and>
   fst (q_remove_head queue_abc 1 100 0) = 2 \<and>
   bytes (snd (q_remove_head queue_abc 1 100 0)) 99 = CHR 0x00 \<and>
   fst (q_remove_tail queue_abc 1 100 0) = 2 \<and>
   bytes (snd (q_remove_tail queue_abc 1 100 0)) 99 = CHR 0x00"
  by code_simp

subsection \<open>Removal from a null, an empty and a non-empty queue\<close>

text \<open>
  Claim C8. On a null handle or an empty queue \<open>q_remove_head\<close> and \<open>q_remove_tail\<close>
  return \<open>NULL\<close> and leave the heap as it is. On a non-empty queue they return the first
  (the last) element, the remaining elements form the ring in their old order, and nothing
  is deallocated: the set of live allocations, the value pointers and the strings are
  unchanged, so the returned element and its string are still live and belong to the
  caller.
\<close>

theorem q_remove_unlinks_without_release:
  assumes "head = NULL \<or> ring h head xs"
  shows "(if head = NULL \<or> xs = []
          then q_remove_head h head sp bufsize = (NULL, h) \<and>
               q_remove_tail h head sp bufsize = (NULL, h)
          else fst (q_remove_head h head sp bufsize) = hd xs \<and>
               ring (snd (q_remove_head h head sp bufsize)) head (tl xs) \<and>
               alloc (snd (q_remove_head h head sp bufsize)) = alloc h \<and>
               val (snd (q_remove_head h head sp bufsize)) = val h \<and>
               str (snd (q_remove_head h head sp bufsize)) = str h \<and>
               fst (q_remove_tail h head sp bufsize) = last xs \<and>
               ring (snd (q_remove_tail h head sp bufsize)) head (butlast xs) \<and>
               alloc (snd (q_remove_tail h head sp bufsize)) = alloc h \<and>
               val (snd (q_remove_tail h head sp bufsize)) = val h \<and>
               str (snd (q_remove_tail h head sp bufsize)) = str h)"
proof (cases "head = NULL \<or> xs = []")
  case True
  with assms have "head = NULL \<or> ring h head []" by auto
  with True show ?thesis
    by (simp add: q_remove_head_null_or_empty q_remove_tail_null_or_empty)
next
  case False
  with assms have r: "ring h head (hd xs # tl xs)" "ring h head (butlast xs @ [last xs])"
    by auto
  from False show ?thesis
    using q_remove_head_unlinks[OF r(1)] q_remove_tail_unlinks[OF r(2)] by simp
qed

theorem q_remove_unlinks_without_release_witness:
  "ring queue_aabcc 1 [2, 4, 6, 8, 10] \<and>
   fst (q_remove_head queue_aabcc 1 NULL 0) = 2 \<and>
   ring (snd (q_remove_head queue_aabcc 1 NULL 0)) 1 [4, 6, 8, 10] \<and>
   alloc (snd (q_remove_head queue_aabcc 1 NULL 0)) = alloc queue_aabcc \<and>
   fst (q_remove_tail queue_aabcc 1 NULL 0) = 10 \<and>
   ring (snd (q_remove_tail queue_aabcc 1 NULL 0)) 1 [2, 4, 6, 8] \<and>
   alloc (snd (q_remove_tail queue_aabcc 1 NULL 0)) = alloc queue_aabcc \<and>
   ring (mk_queue 1 []) 1 [] \<and>
   q_remove_head (mk_queue 1 []) 1 NULL 0 = (NULL, mk_queue 1 []) \<and>
   q_remove_tail (mk_queue 1 []) 1 NULL 0 = (NULL, mk_queue 1 [])"
proof -
  have r: "ring queue_aabcc 1 [2, 4, 6, 8, 10]" "ring (mk_queue 1 []) 1 []"
    by code_simp+
  show ?thesis
    using r q_remove_unlinks_without_release[of 1 queue_aabcc "[2, 4, 6, 8, 10]" NULL 0]
      q_remove_unlinks_without_release[of 1 "mk_queue 1 []" "[]" NULL 0]
    by simp
qed

subsection \<open>Insertion: all or nothing\<close>

text \<open>
  Claim C6. \<open>re\<close> is the allocator's answer to the request for the element and \<open>rs\<close> its
  answer to \<^verbatim>\<open>strdup\<close>; a non-null answer is a block that was not live. If the handle is
  null or the element cannot be allocated, \<open>q_insert_head\<close> and \<open>q_insert_tail\<close> return
  false and the heap is unchanged. If the string cannot be duplicated they return false,
  the element block is released again (the live set is the old one) and the heap differs
  from the old one only in the value field of that released block, so the queue and its
  values are as before. Otherwise they return true, the queue has the new element \<open>re\<close>
  at the front (at the back) before (behind) the old elements, its value pointer is the
  fresh block \<open>rs\<close> holding a copy of the argument, and exactly the two new blocks have
  become live.
\<close>

theorem q_insert_all_or_nothing:
  assumes "head = NULL \<or> queue h head xs"
    and "re = NULL \<or> re \<notin> alloc h"
    and "rs = NULL \<or> rs \<notin> insert re (alloc h)"
  shows "(if head = NULL \<or> re = NULL
          then q_insert_head h head s re rs = (False, h) \<and>
               q_insert_tail h head s re rs = (False, h)
          else if rs = NULL
          then q_insert_head h head s re rs = (False, h\<lparr>val := (val h)(re := NULL)\<rparr>) \<and>
               q_insert_tail h head s re rs = (False, h\<lparr>val := (val h)(re := NULL)\<rparr>) \<and>
               queue (h\<lparr>val := (val h)(re := NULL)\<rparr>) head xs \<and>
               values_of (h\<lparr>val := (val h)(re := NULL)\<rparr>) xs = values_of h xs
          else fst (q_insert_head h head s re rs) = True \<and>
               queue (snd (q_insert_head h head s re rs)) head (re # xs) \<and>
               val (snd (q_insert_head h head s re rs)) re = rs \<and>
               value_of (snd (q_insert_head h head s re rs)) re = s \<and>
               values_of (snd (q_insert_head h head s re rs)) xs = values_of h xs \<and>
               alloc (snd (q_insert_head h head s re rs)) = insert rs (insert re (alloc h)) \<and>
               fst (q_insert_tail h head s re rs) = True \<and>
               queue (snd (q_insert_tail h head s re rs)) head (xs @ [re]) \<and>
               val (snd (q_insert_tail h head s re rs)) re = rs \<and>
               value_of (snd (q_insert_tail h head s re rs)) re = s \<and>
               values_of (snd (q_insert_tail h head s re rs)) xs = values_of h xs \<and>
               alloc (snd (q_insert_tail h head s re rs)) = insert rs (insert re (alloc h)))"
proof (cases "head = NULL \<or> re = NULL")
  case True
  then show ?thesis by (simp add: q_insert_head_fails q_insert_tail_fails)
next
  case False
  with assms have q: "queue h head xs" and re: "re \<notin> alloc h" "re \<noteq> NULL" "head \<noteq> NULL" by auto
  note f = queue_fresh[OF q re(1)]
  show ?thesis
  proof (cases "rs = NULL")
    case True
    have "queue (h\<lparr>val := (val h)(re := NULL)\<rparr>) head xs"
      using q f by (auto simp: queue_def owned_def dll_links_cong[of "h\<lparr>val := (val h)(re := NULL)\<rparr>" h])
    moreover have "values_of (h\<lparr>val := (val h)(re := NULL)\<rparr>) xs = values_of h xs"
      using f by (auto simp: values_of_def value_of_def)
    ultimately show ?thesis using True False re
      by (simp add: q_insert_head_rollback q_insert_tail_rollback)
  next
    case rs: False
    with assms have rs': "rs \<notin> alloc h" "rs \<noteq> re" by auto
    let ?g = "h\<lparr>str := (str h)(rs := s), alloc := insert rs (insert re (alloc h)),
          val := (val h)(re := rs)\<rparr>"
    have 1: "queue (list_add re head ?g) head (re # xs)"
      by (rule queue_new_front[OF q re(2) rs re(1) rs' refl])
    have 2: "queue (list_add_tail re head ?g) head (xs @ [re])"
      by (rule queue_new_back[OF q re(2) rs re(1) rs' refl])
    have 3: "values_of (list_add re head ?g) xs = values_of h xs"
      "values_of (list_add_tail re head ?g) xs = values_of h xs"
      by (rule values_of_new_block[OF q re(1) rs'(1)]; simp)+
    show ?thesis using False rs 1 2 3 re
      by (simp add: q_insert_head_links q_insert_tail_links value_of_def)
  qed
qed


theorem q_insert_all_or_nothing_witness:
  "queue queue_ba 1 [2, 4] \<and> 6 \<notin> alloc queue_ba \<and> 7 \<notin> insert 6 (alloc queue_ba) \<and>
   fst (q_insert_head queue_ba 1 ''c'' 6 7) = True \<and>
   queue (snd (q_insert_head queue_ba 1 ''c'' 6 7)) 1 [6, 2, 4] \<and>
   value_of (snd (q_insert_head queue_ba 1 ''c'' 6 7)) 6 = ''c'' \<and>
   fst (q_insert_tail queue_ba 1 ''c'' 6 7) = True \<and>
   queue (snd (q_insert_tail queue_ba 1 ''c'' 6 7)) 1 [2, 4, 6] \<and>
   value_of (snd (q_insert_tail queue_ba 1 ''c'' 6 7)) 6 = ''c'' \<and>
   q_insert_head queue_ba 1 ''c'' 6 NULL = (False, queue_ba\<lparr>val := (val queue_ba)(6 := NULL)\<rparr>) \<and>
   q_insert_tail queue_ba 1 ''c'' 6 NULL = (False, queue_ba\<lparr>val := (val queue_ba)(6 := NULL)\<rparr>) \<and>
   queue (queue_ba\<lparr>val := (val queue_ba)(6 := NULL)\<rparr>) 1 [2, 4] \<and>
   q_insert_head queue_ba 1 ''c'' NULL NULL = (False, queue_ba) \<and>
   q_insert_tail queue_ba NULL ''c'' 6 7 = (False, queue_ba)"
proof -
  have q: "queue queue_ba 1 [2, 4]" and f: "6 \<notin> alloc queue_ba" "7 \<notin> insert 6 (alloc queue_ba)"
    by code_simp+
  show ?thesis
    using q f q_insert_all_or_nothing[of 1 queue_ba "[2, 4]" 6 7 "''c''"]
      q_insert_all_or_nothing[of 1 queue_ba "[2, 4]" 6 NULL "''c''"]
      q_insert_all_or_nothing[of 1 queue_ba "[2, 4]" NULL NULL "''c''"]
      q_insert_all_or_nothing[of NULL queue_ba "[2, 4]" 6 7 "''c''"]
    by simp
qed

subsection \<open>Deleting the middle element\<close>

text \<open>
  Claim C7. On a null handle or an empty queue \<open>q_delete_mid\<close> returns false and changes
  nothing. On a queue of \<open>n > 0\<close> elements it returns true, the element at index
  \<open>n div 2\<close> (from 0) is gone from the ring and the others keep their order, and exactly
  that element and its string are released. The witness runs it on \<open>a, b, c, d, e\<close> and on
  \<open>a, b, c, d\<close>: both lose \<open>c\<close>, the element at index 2.
\<close>

theorem q_delete_mid_removes_middle:
  assumes "head = NULL \<or> queue h head xs"
  shows "(if head = NULL \<or> xs = []
          then q_delete_mid h head = Some (False, h)
          else q_delete_mid h head \<noteq> None \<and>
               fst (the (q_delete_mid h head)) = True \<and>
               queue (snd (the (q_delete_mid h head))) head
                 (take (length xs div 2) xs @ drop (Suc (length xs div 2)) xs) \<and>
               alloc (snd (the (q_delete_mid h head))) =
                 alloc h - {xs ! (length xs div 2), val h (xs ! (length xs div 2))} \<and>
               val (snd (the (q_delete_mid h head))) = val h \<and>
               str (snd (the (q_delete_mid h head))) = str h)"
proof (cases "head = NULL \<or> xs = []")
  case True
  with assms have "head = NULL \<or> list_empty h head"
    by (auto simp: ring_list_empty dest: queue_ring)
  with True show ?thesis by (auto simp: q_delete_mid_def)
next
  case False
  with assms have q: "queue h head xs" and ne: "head \<noteq> NULL" "xs \<noteq> []" by auto
  note r = queue_ring[OF q]
  let ?m = "length xs div 2"
  from ne have m: "?m < length xs" by (cases xs) auto
  have "q_delete_mid_loop h head ((xs @ [head]) ! (2 * 0)) ((head # xs) ! 0) =
          Some ((head # xs) ! ?m)"
    by (rule q_delete_mid_loop_finds_middle[OF r]) simp
  moreover have "nxt h head = (xs @ [head]) ! 0" using ring_nth_nxt[OF r, of 0] by simp
  ultimately have loop: "q_delete_mid_loop h head (nxt h head) head = Some ((head # xs) ! ?m)"
    by simp
  have e: "nxt h ((head # xs) ! ?m) = xs ! ?m"
    using ring_nth_nxt[OF r, of ?m] m by (simp add: nth_append)
  have split: "xs = take ?m xs @ xs ! ?m # drop (Suc ?m) xs"
    using m by (rule id_take_nth_drop)
  have q': "queue h head (take ?m xs @ xs ! ?m # drop (Suc ?m) xs)"
    using q split by simp
  have res: "q_delete_mid h head = Some (True, q_release_element (xs ! ?m) (list_del (xs ! ?m) h))"
    using ne r loop e by (simp add: q_delete_mid_def ring_list_empty Let_def)
  show ?thesis using False queue_unlink_release[OF q'] by (simp add: res)
qed

theorem q_delete_mid_removes_middle_witness:
  "queue queue_abcde 1 [2, 4, 6, 8, 10] \<and>
   values_of queue_abcde [2, 4, 6, 8, 10] = [''a'', ''b'', ''c'', ''d'', ''e''] \<and>
   fst (the (q_delete_mid queue_abcde 1)) = True \<and>
   queue (snd (the (q_delete_mid queue_abcde 1))) 1 [2, 4, 8, 10] \<and>
   values_of (snd (the (q_delete_mid queue_abcde 1))) [2, 4, 8, 10] =
     [''a'', ''b'', ''d'', ''e''] \<and>
   alloc (snd (the (q_delete_mid queue_abcde 1))) = alloc queue_abcde - {6, 7} \<and>
   queue queue_abcd 1 [2, 4, 6, 8] \<and>
   values_of queue_abcd [2, 4, 6, 8] = [''a'', ''b'', ''c'', ''d''] \<and>
   fst (the (q_delete_mid queue_abcd 1)) = True \<and>
   queue (snd (the (q_delete_mid queue_abcd 1))) 1 [2, 4, 8] \<and>
   values_of (snd (the (q_delete_mid queue_abcd 1))) [2, 4, 8] = [''a'', ''b'', ''d''] \<and>
   alloc (snd (the (q_delete_mid queue_abcd 1))) = alloc queue_abcd - {6, 7} \<and>
   queue (mk_queue 1 []) 1 [] \<and>
   q_delete_mid (mk_queue 1 []) 1 = Some (False, mk_queue 1 []) \<and>
   q_delete_mid queue_abcd NULL = Some (False, queue_abcd)"
proof -
  have q: "queue queue_abcde 1 [2, 4, 6, 8, 10]" "queue queue_abcd 1 [2, 4, 6, 8]"
    "queue (mk_queue 1 []) 1 []"
    by code_simp+
  have v: "values_of queue_abcde [2, 4, 6, 8, 10] = [''a'', ''b'', ''c'', ''d'', ''e'']"
    "values_of queue_abcde [2, 4, 8, 10] = [''a'', ''b'', ''d'', ''e'']"
    "values_of queue_abcd [2, 4, 6, 8] = [''a'', ''b'', ''c'', ''d'']"
    "values_of queue_abcd [2, 4, 8] = [''a'', ''b'', ''d'']"
    "val queue_abcde 6 = 7" "val queue_abcd 6 = 7"
    by code_simp+
  from q(1) q_delete_mid_removes_middle[of 1 queue_abcde "[2, 4, 6, 8, 10]"]
  have a: "fst (the (q_delete_mid queue_abcde 1)) = True"
    "queue (snd (the (q_delete_mid queue_abcde 1))) 1 [2, 4, 8, 10]"
    "alloc (snd (the (q_delete_mid queue_abcde 1))) = alloc queue_abcde - {6, 7}"
    "val (snd (the (q_delete_mid queue_abcde 1))) = val queue_abcde"
    "str (snd (the (q_delete_mid queue_abcde 1))) = str queue_abcde"
    by (simp_all add: v)
  from q(2) q_delete_mid_removes_middle[of 1 queue_abcd "[2, 4, 6, 8]"]
  have b: "fst (the (q_delete_mid queue_abcd 1)) = True"
    "queue (snd (the (q_delete_mid queue_abcd 1))) 1 [2, 4, 8]"
    "alloc (snd (the (q_delete_mid queue_abcd 1))) = alloc queue_abcd - {6, 7}"
    "val (snd (the (q_delete_mid queue_abcd 1))) = val queue_abcd"
    "str (snd (the (q_delete_mid queue_abcd 1))) = str queue_abcd"
    by (simp_all add: v)
  from q(3) q_delete_mid_removes_middle[of 1 "mk_queue 1 []" "[]"]
    q_delete_mid_removes_middle[of NULL queue_abcd "[]"]
  have c: "q_delete_mid (mk_queue 1 []) 1 = Some (False, mk_queue 1 [])"
    "q_delete_mid queue_abcd NULL = Some (False, queue_abcd)"
    by simp_all
  show ?thesis
    using q v a(1-3) b(1-3) c values_of_eqI[OF a(4,5)] values_of_eqI[OF b(4,5)] by simp
qed

subsection \<open>Reversal is an involution\<close>

text \<open>
  Claim C9. On a valid queue \<open>q_reverse\<close> returns; the result is the ring of the same
  nodes in reversed order; the set of live allocations, the value pointers, the strings
  and the bytes are unchanged; and a second \<open>q_reverse\<close> gives back the very heap the
  first one started from, so every node is again where it was. On a null handle nothing
  changes.
\<close>

theorem q_reverse_involution:
  assumes "head = NULL \<or> ring h head xs"
  shows "q_reverse h head \<noteq> None \<and>
         q_reverse (the (q_reverse h head)) head = Some h \<and>
         (if head = NULL then the (q_reverse h head) = h
          else ring (the (q_reverse h head)) head (rev xs)) \<and>
         alloc (the (q_reverse h head)) = alloc h \<and>
         val (the (q_reverse h head)) = val h \<and>
         str (the (q_reverse h head)) = str h \<and>
         bytes (the (q_reverse h head)) = bytes h"
proof (cases "head = NULL")
  case True
  then show ?thesis by (simp add: q_reverse_def)
next
  case False
  with assms have r: "ring h head xs" by simp
  from q_reverse_reverses[OF r] obtain h1 where h1:
    "q_reverse h head = Some h1" "ring h1 head (rev xs)"
    "val h1 = val h" "str h1 = str h" "bytes h1 = bytes h" "alloc h1 = alloc h"
    "\<forall>a. a \<notin> set (head # xs) \<longrightarrow> nxt h1 a = nxt h a \<and> prv h1 a = prv h a"
    by auto
  from q_reverse_reverses[OF h1(2)] obtain h2 where h2:
    "q_reverse h1 head = Some h2" "ring h2 head xs"
    "val h2 = val h1" "str h2 = str h1" "bytes h2 = bytes h1" "alloc h2 = alloc h1"
    "\<forall>a. a \<notin> set (head # xs) \<longrightarrow> nxt h2 a = nxt h1 a \<and> prv h2 a = prv h1 a"
    by auto
  have "nxt h2 a = nxt h a \<and> prv h2 a = prv h a" for a
    using ring_links_unique[OF r h2(2), of a] h1(7) h2(7) by (cases "a \<in> set (head # xs)") auto
  then have "nxt h2 = nxt h" "prv h2 = prv h" by auto
  with h1 h2 have "h2 = h" by (intro heap.equality) simp_all
  with h1 h2 False show ?thesis by simp
qed

theorem q_reverse_involution_witness:
  "ring queue_abcde 1 [2, 4, 6, 8, 10] \<and>
   q_reverse queue_abcde 1 \<noteq> None \<and>
   ring (the (q_reverse queue_abcde 1)) 1 [10, 8, 6, 4, 2] \<and>
   q_reverse (the (q_reverse queue_abcde 1)) 1 = Some queue_abcde \<and>
   alloc (the (q_reverse queue_abcde 1)) = alloc queue_abcde \<and>
   q_reverse queue_abcde NULL = Some queue_abcde"
proof -
  have r: "ring queue_abcde 1 [2, 4, 6, 8, 10]" by code_simp
  show ?thesis
    using r q_reverse_involution[of 1 queue_abcde "[2, 4, 6, 8, 10]"]
      q_reverse_involution[of NULL queue_abcde "[]"]
    by auto
qed

subsection \<open>Sorting\<close>

text \<open>
  Claim C4. On a null handle and on a queue of at most one element \<open>q_sort\<close> changes
  nothing. On a queue of two or more elements it returns, and the forward traversal from
  the sentinel then runs through the nodes in the order \<open>msort_nodes\<close> gives them: a
  rearrangement of the same nodes (equal as multisets) whose values ascend in the order of
  \<open>strcmp\<close>, the byte-wise comparison. Value pointers, strings and the set of live
  allocations are unchanged. The witness sorts the queue obtained by inserting \<open>b\<close>, \<open>a\<close>,
  \<open>c\<close> at the tail of a new queue: the values then read \<open>a, b, c\<close>.
\<close>

theorem q_sort_sorts_ascending:
  assumes "head = NULL \<or> ring h head xs"
  shows "q_sort h head \<noteq> None \<and>
         (if head = NULL \<or> length xs \<le> 1 then the (q_sort h head) = h
          else forward (the (q_sort h head)) head (msort_nodes (value_of h) xs)) \<and>
         sorted_wrt (\<lambda>a b. strcmp (value_of (the (q_sort h head)) a)
                              (value_of (the (q_sort h head)) b) \<le> 0)
           (msort_nodes (value_of h) xs) \<and>
         mset (msort_nodes (value_of h) xs) = mset xs \<and>
         val (the (q_sort h head)) = val h \<and>
         str (the (q_sort h head)) = str h \<and>
         alloc (the (q_sort h head)) = alloc h"
proof (cases "head = NULL \<or> length xs \<le> 1")
  case True
  with assms have "head = NULL \<or> (ring h head xs \<and> length xs \<le> 1)" by auto
  then have "q_sort h head = Some h" by (rule q_sort_no_effect)
  with True show ?thesis by (simp add: sorted_msort_nodes mset_msort_nodes)
next
  case False
  with assms have r: "ring h head xs" and n: "2 \<le> length xs" by auto
  from q_sort_sorts[OF r n] obtain h' where h':
    "q_sort h head = Some h'" "forward h' head (msort_nodes (value_of h) xs)"
    "val h' = val h" "str h' = str h" "alloc h' = alloc h"
    by auto
  then have "value_of h' = value_of h" by (simp add: value_of_def fun_eq_iff)
  with h' False show ?thesis by (simp add: sorted_msort_nodes mset_msort_nodes)
qed

theorem q_sort_sorts_ascending_witness:
  "ring inserted_bac 1 [2, 4, 6] \<and>
   values_of inserted_bac [2, 4, 6] = [''b'', ''a'', ''c''] \<and>
   q_sort inserted_bac 1 \<noteq> None \<and>
   forward (the (q_sort inserted_bac 1)) 1 [4, 2, 6] \<and>
   values_of (the (q_sort inserted_bac 1)) [4, 2, 6] = [''a'', ''b'', ''c''] \<and>
   alloc (the (q_sort inserted_bac 1)) = alloc inserted_bac \<and>
   the (q_sort inserted_bac NULL) = inserted_bac \<and>
   ring (mk_queue 1 []) 1 [] \<and>
   the (q_sort (mk_queue 1 []) 1) = mk_queue 1 [] \<and>
   ring queue_abc 1 [2] \<and>
   the (q_sort queue_abc 1) = queue_abc"
proof -
  have r: "ring inserted_bac 1 [2, 4, 6]" "ring (mk_queue 1 []) 1 []" "ring queue_abc 1 [2]"
    by code_simp+
  have v: "values_of inserted_bac [2, 4, 6] = [''b'', ''a'', ''c'']"
    "values_of inserted_bac [4, 2, 6] = [''a'', ''b'', ''c'']"
    "msort_nodes (value_of inserted_bac) [2, 4, 6] = [4, 2, 6]"
    by code_simp+
  from r(1) q_sort_sorts_ascending[of 1 inserted_bac "[2, 4, 6]"]
  have a: "q_sort inserted_bac 1 \<noteq> None" "forward (the (q_sort inserted_bac 1)) 1 [4, 2, 6]"
    "val (the (q_sort inserted_bac 1)) = val inserted_bac"
    "str (the (q_sort inserted_bac 1)) = str inserted_bac"
    "alloc (the (q_sort inserted_bac 1)) = alloc inserted_bac"
    by (simp_all add: v)
  from r(2,3) q_sort_sorts_ascending[of NULL inserted_bac "[]"]
    q_sort_sorts_ascending[of 1 "mk_queue 1 []" "[]"]
    q_sort_sorts_ascending[of 1 queue_abc "[2]"]
  have b: "the (q_sort inserted_bac NULL) = inserted_bac"
    "the (q_sort (mk_queue 1 []) 1) = mk_queue 1 []" "the (q_sort queue_abc 1) = queue_abc"
    by simp_all
  show ?thesis using r v(1,2) a(1,2,5) b values_of_eqI[OF a(3,4)] by simp
qed

subsection \<open>Termination of the merge sort\<close>

text \<open>
  Claim C10. For every NULL-terminated chain \<open>xs\<close> starting at \<open>head\<close>, \<open>mergesort\<close>
  returns. If the chain has two or more nodes, the fast/slow loop returns a node \<open>slow\<close>,
  and cutting the link behind it leaves the chain of the first \<open>(n + 1) div 2\<close> nodes and
  the chain of the others, both non-empty and strictly shorter than \<open>xs\<close>; a shorter
  chain is returned as it is. And \<open>mergeTwoLists\<close> returns on \<open>xs\<close> and any chain \<open>ys\<close>
  that shares no node with it.
\<close>

theorem mergesort_terminates:
  assumes "chain h head xs"
  shows "mergesort h head \<noteq> None \<and>
         (if 2 \<le> length xs
          then mergesort_loop h (nxt h head) head \<noteq> None \<and>
               chain (h\<lparr>nxt := (nxt h)(the (mergesort_loop h (nxt h head) head) := NULL)\<rparr>) head
                 (take ((length xs + 1) div 2) xs) \<and>
               chain (h\<lparr>nxt := (nxt h)(the (mergesort_loop h (nxt h head) head) := NULL)\<rparr>)
                 (nxt h (the (mergesort_loop h (nxt h head) head)))
                 (drop ((length xs + 1) div 2) xs) \<and>
               0 < length (take ((length xs + 1) div 2) xs) \<and>
               length (take ((length xs + 1) div 2) xs) < length xs \<and>
               0 < length (drop ((length xs + 1) div 2) xs) \<and>
               length (drop ((length xs + 1) div 2) xs) < length xs
          else mergesort h head = Some (head, h)) \<and>
         (chain h l2 ys \<and> distinct (xs @ ys) \<longrightarrow> mergeTwoLists h head l2 \<noteq> None)"
proof (intro conjI)
  from mergesort_sorts[OF assms] show "mergesort h head \<noteq> None" by auto
  show "chain h l2 ys \<and> distinct (xs @ ys) \<longrightarrow> mergeTwoLists h head l2 \<noteq> None"
    using mergeTwoLists_merges[OF assms, of l2 ys] by auto
  show "if 2 \<le> length xs
        then mergesort_loop h (nxt h head) head \<noteq> None \<and>
             chain (h\<lparr>nxt := (nxt h)(the (mergesort_loop h (nxt h head) head) := NULL)\<rparr>) head
               (take ((length xs + 1) div 2) xs) \<and>
             chain (h\<lparr>nxt := (nxt h)(the (mergesort_loop h (nxt h head) head) := NULL)\<rparr>)
               (nxt h (the (mergesort_loop h (nxt h head) head)))
               (drop ((length xs + 1) div 2) xs) \<and>
             0 < length (take ((length xs + 1) div 2) xs) \<and>
             length (take ((length xs + 1) div 2) xs) < length xs \<and>
             0 < length (drop ((length xs + 1) div 2) xs) \<and>
             length (drop ((length xs + 1) div 2) xs) < length xs
        else mergesort h head = Some (head, h)"
  proof (cases "2 \<le> length xs")
    case True
    from mergesort_split[OF assms True] obtain slow where
      "mergesort_loop h (nxt h head) head = Some slow"
      "chain (h\<lparr>nxt := (nxt h)(slow := NULL)\<rparr>) head (take ((length xs + 1) div 2) xs)"
      "chain (h\<lparr>nxt := (nxt h)(slow := NULL)\<rparr>) (nxt h slow) (drop ((length xs + 1) div 2) xs)"
      "0 < (length xs + 1) div 2" "(length xs + 1) div 2 < length xs"
      by auto
    with True show ?thesis by simp
  next
    case False
    then have "xs = [] \<or> (\<exists>x. xs = [x])" by (cases xs; cases "tl xs") auto
    with assms have "head = NULL \<or> nxt h head = NULL" by auto
    then have "mergesort h head = Some (head, h)" by (subst mergesort.simps) simp
    with False show ?thesis by simp
  qed
qed

theorem mergesort_terminates_witness:
  "chain chain_bac 2 [2, 4, 6] \<and>
   mergesort chain_bac 2 \<noteq> None \<and>
   mergesort_loop chain_bac (nxt chain_bac 2) 2 \<noteq> None \<and>
   chain (chain_bac\<lparr>nxt := (nxt chain_bac)(the (mergesort_loop chain_bac (nxt chain_bac 2) 2) := NULL)\<rparr>)
     2 [2, 4] \<and>
   chain (chain_bac\<lparr>nxt := (nxt chain_bac)(the (mergesort_loop chain_bac (nxt chain_bac 2) 2) := NULL)\<rparr>)
     (nxt chain_bac (the (mergesort_loop chain_bac (nxt chain_bac 2) 2))) [6] \<and>
   chain chains_b_ac 2 [2] \<and> chain chains_b_ac 4 [4, 6] \<and>
   mergesort chains_b_ac 2 = Some (2, chains_b_ac) \<and>
   mergeTwoLists chains_b_ac 2 4 \<noteq> None"
proof -
  have c: "chain chain_bac 2 [2, 4, 6]" "chain chains_b_ac 2 [2]" "chain chains_b_ac 4 [4, 6]"
    by code_simp+
  show ?thesis
    using c mergesort_terminates[of chain_bac 2 "[2, 4, 6]" NULL "[]"]
      mergesort_terminates[of chains_b_ac 2 "[2]" 4 "[4, 6]"]
    by simp
qed

end
